theory Spec2Isabelle
  imports Main "HOL-Library.AList"
begin

section \<open>async-service: data\<close>

text \<open>
  The module \<^verbatim>\<open>async-service.js\<close> keeps three pieces of state: the module-level hash
  \<^verbatim>\<open>unloadChecks\<close>, and, per Service, the sparse array \<^verbatim>\<open>pending\<close> and the hash \<^verbatim>\<open>pipes\<close>
  of arrays. Calls are JavaScript objects compared by identity, so the model keeps them
  in a store indexed by an identifier and lets \<^verbatim>\<open>pending\<close> and the pipes hold identifiers.
  The closure variables \<^verbatim>\<open>abandoned\<close> and \<^verbatim>\<open>promise\<close> of \<^verbatim>\<open>Call\<close> are fields of the stored call.
  The property \<^verbatim>\<open>method\<close> is the field \<open>method'\<close>.

  The two hashes are plain objects; their own properties are association lists in
  insertion order. Reading a property that is not an own property finds the member of
  \<^verbatim>\<open>Object.prototype\<close> of that name, if there is one (\<open>object_prototype\<close> below).
\<close>

type_synonym cid = nat

datatype error = TypeError string | Thrown string

datatype 'a outcome = Return 'a | Throw error

datatype registration = proceed | delay

datatype settlement = Unsettled | Fulfilled string | Smashed string

record call =
  url :: string
  method' :: string
  data :: "(string \<times> string) list"
  readOnly :: bool
  pipeName :: string
  prioritize :: bool
  async :: bool
  unloadId :: "string option"
  abandoned :: bool
  promise :: settlement

text \<open>The argument object of \<^verbatim>\<open>Call\<close>; an absent string or object property is \<open>None\<close>.\<close>

record args =
  arg_url :: string
  arg_method :: "string option"
  arg_data :: "(string \<times> string) list option"
  arg_readOnly :: bool
  arg_pipeName :: "string option"
  arg_prioritize :: bool
  arg_sync :: bool

text \<open>
  The options object handed to \<^verbatim>\<open>jQuery.ajax\<close>. Its \<^verbatim>\<open>error\<close> and \<^verbatim>\<open>success\<close> members are
  closures over one call; \<open>rq_call\<close> names that call.
\<close>

record request =
  rq_type :: string
  rq_async :: bool
  rq_url :: string
  rq_data :: "(string \<times> string) list"
  rq_call :: cid

text \<open>
  An unload check is a function of no arguments that returns a string and may have
  effects; \<open>'e\<close> is whatever state those effects act on.
\<close>

type_synonym 'e producer = "'e \<Rightarrow> string \<times> 'e"

record 'e world =
  calls :: "cid \<Rightarrow> call"
  nextId :: cid
  pending :: "cid option list"
  pipes :: "(string \<times> cid list) list"
  service_readOnly :: bool
  unloadChecks :: "(string \<times> 'e producer) list"
  ajax :: "request list"
  random :: "nat \<Rightarrow> nat"
  drawn :: nat

text \<open>
  \<open>random w k\<close> is the value of the \<open>k\<close>-th evaluation of \<^verbatim>\<open>Math.random() * 16 | 0\<close>
  (taken modulo 16), \<open>drawn w\<close> the number of evaluations so far; \<open>ajax w\<close> lists the
  requests handed to the transport, oldest first.
\<close>

section \<open>The unload-check registry\<close>

datatype 'e check_args = OneArg "string option" | TwoArgs "string option" "'e producer"

definition hexdigit :: "nat \<Rightarrow> char" where
  "hexdigit v = ''0123456789abcdef'' ! v"

fun replace_xy :: "(nat \<Rightarrow> nat) \<Rightarrow> nat \<Rightarrow> string \<Rightarrow> string \<times> nat" where
  "replace_xy rnd k [] = ([], k)"
| "replace_xy rnd k (c # cs) =
     (if c = CHR ''x'' \<or> c = CHR ''y'' then
        (let r = rnd k mod 16;
             v = (if c = CHR ''x'' then r else or (and r 3) 8);
             (s, k') = replace_xy rnd (Suc k) cs
         in (hexdigit v # s, k'))
      else (let (s, k') = replace_xy rnd k cs in (c # s, k')))"

definition uuid :: "'e world \<Rightarrow> string \<times> 'e world" where
  "uuid w =
     (let (s, k) = replace_xy (random w) (drawn w) ''xxxxxxxx-xxxx-4xxx-yxxx-xxxxxxxxxxxx''
      in (s, w\<lparr>drawn := k\<rparr>))"

text \<open>\<^verbatim>\<open>if (!name) { name = ... }\<close>: null, undefined and the empty string are falsy.\<close>

definition resolve_name :: "string option \<Rightarrow> 'e world \<Rightarrow> string \<times> 'e world" where
  "resolve_name name w =
     (case name of
        None \<Rightarrow> uuid w
      | Some s \<Rightarrow> if s = [] then uuid w else (s, w))"

text \<open>
  \<^verbatim>\<open>unloadCheck(name)\<close> deletes the entry and returns undefined (\<open>None\<close>);
  \<^verbatim>\<open>unloadCheck(name, check)\<close> stores \<^verbatim>\<open>check\<close> and returns the name used.
\<close>

fun given_name :: "'e check_args \<Rightarrow> string option" where
  "given_name (OneArg name) = name"
| "given_name (TwoArgs name check) = name"

definition unloadCheck :: "'e check_args \<Rightarrow> 'e world \<Rightarrow> string option \<times> 'e world" where
  "unloadCheck ca w =
     (let (n, w1) = resolve_name (given_name ca) w
      in case ca of
           OneArg _ \<Rightarrow> (None, w1\<lparr>unloadChecks := AList.delete n (unloadChecks w1)\<rparr>)
         | TwoArgs _ check \<Rightarrow>
             (Some n, w1\<lparr>unloadChecks := AList.update n check (unloadChecks w1)\<rparr>))"

section \<open>The Service\<close>

text \<open>
  \<^verbatim>\<open>exports.Service = function ()\<close> declares no parameter: whatever the caller passes is
  dropped, and the object it returns has \<^verbatim>\<open>readOnly: false\<close>. A state is the module just
  loaded, with one Service: nothing pending, no pipe, no unload check, no request.
\<close>

definition blank :: call where
  "blank = \<lparr>url = [], method' = [], data = [], readOnly = False, pipeName = [],
     prioritize = False, async = True, unloadId = None, abandoned = False,
     promise = Unsettled\<rparr>"

definition Service :: "'o \<Rightarrow> (nat \<Rightarrow> nat) \<Rightarrow> 'e world" where
  "Service opts rnd =
     \<lparr>calls = (\<lambda>_. blank), nextId = 0, pending = [], pipes = [],
      service_readOnly = False, unloadChecks = [], ajax = [], random = rnd, drawn = 0\<rparr>"

text \<open>
  \<^verbatim>\<open>makeRequest\<close> reads \<^verbatim>\<open>call.sync\<close>. The call object is built with the properties url,
  method, data, readOnly, pipeName, prioritize, async and abandon; it has no property
  \<^verbatim>\<open>sync\<close>, so the read gives undefined.
\<close>

definition call_sync :: "call \<Rightarrow> bool option" where
  "call_sync c = None"

definition truthy :: "bool option \<Rightarrow> bool" where
  "truthy v = (case v of None \<Rightarrow> False | Some b \<Rightarrow> b)"

definition ajax_options :: "call \<Rightarrow> cid \<Rightarrow> request" where
  "ajax_options call c =
     \<lparr>rq_type = method' call, rq_async = (\<not> truthy (call_sync call)),
      rq_url = url call, rq_data = data call, rq_call = c\<rparr>"

definition makeRequest :: "cid \<Rightarrow> 'e world \<Rightarrow> 'e world" where
  "makeRequest c w = w\<lparr>ajax := ajax w @ [ajax_options (calls w c) c]\<rparr>"

text \<open>The first index \<open>i \<le> length\<close> that is not in the sparse array takes the call.\<close>

fun put_pending :: "cid \<Rightarrow> cid option list \<Rightarrow> cid option list" where
  "put_pending c [] = [Some c]"
| "put_pending c (None # xs) = Some c # xs"
| "put_pending c (Some d # xs) = Some d # put_pending c xs"

definition pending_message :: "call \<Rightarrow> 'e producer" where
  "pending_message call = (\<lambda>e. (''Pending: '' @ method' call @ '': '' @ url call, e))"

text \<open>
  The insertion into the pipe: a prioritized call is unshifted and then swapped with
  the element behind it, \<^verbatim>\<open>pipe[1] = [pipe[0], pipe[0] = pipe[1]][0]\<close>; any other call is
  pushed.
\<close>

definition pipe_insert :: "bool \<Rightarrow> cid \<Rightarrow> cid list \<Rightarrow> cid list" where
  "pipe_insert prio c pipe =
     (if prio \<and> length pipe > 0
      then (let p = c # pipe in p[0 := p ! 1, 1 := p ! 0])
      else pipe @ [c])"

text \<open>
  The members every object inherits from \<^verbatim>\<open>Object.prototype\<close>: the seven of
  ECMAScript 5 and the accessors of its Annex B. Each is a function, paired here with its \<^verbatim>\<open>length\<close>
  (the number of its parameters); \<^verbatim>\<open>__proto__\<close> reads as \<^verbatim>\<open>Object.prototype\<close> itself, an
  object whose \<^verbatim>\<open>length\<close> is undefined (\<open>None\<close>). All of them are truthy and none has
  \<^verbatim>\<open>push\<close>, \<^verbatim>\<open>unshift\<close> or \<^verbatim>\<open>shift\<close>.
\<close>

definition object_prototype :: "(string \<times> nat option) list" where
  "object_prototype =
     [(''constructor'', Some 1), (''toString'', Some 0), (''toLocaleString'', Some 0),
      (''valueOf'', Some 0), (''hasOwnProperty'', Some 1), (''isPrototypeOf'', Some 1),
      (''propertyIsEnumerable'', Some 1), (''__defineGetter__'', Some 2),
      (''__defineSetter__'', Some 2), (''__lookupGetter__'', Some 1),
      (''__lookupSetter__'', Some 1), (''__proto__'', None)]"

text \<open>
  \<^verbatim>\<open>pipes[pipeName]\<close>: the array stored under the name, else the inherited member of
  that name, else undefined.
\<close>

datatype slot = Absent | Array "cid list" | Inherited "nat option"

definition pipes_get :: "'e world \<Rightarrow> string \<Rightarrow> slot" where
  "pipes_get w name =
     (case map_of (pipes w) name of
        Some q \<Rightarrow> Array q
      | None \<Rightarrow>
          (case map_of object_prototype name of
             Some len \<Rightarrow> Inherited len
           | None \<Rightarrow> Absent))"

definition inherited :: "'e world \<Rightarrow> string \<Rightarrow> bool" where
  "inherited w name = (case pipes_get w name of Inherited len \<Rightarrow> True | _ \<Rightarrow> False)"

text \<open>
  The array \<^verbatim>\<open>register\<close> works on when the name is not inherited: the one stored, or the
  empty one it has just created,
  \<^verbatim>\<open>if (!pipes[pipeName]) { pipes[pipeName] = []; } pipe = pipes[pipeName];\<close>
\<close>

definition pipe_of :: "'e world \<Rightarrow> string \<Rightarrow> cid list" where
  "pipe_of w name = (case map_of (pipes w) name of None \<Rightarrow> [] | Some q \<Rightarrow> q)"

text \<open>
  An inherited member is truthy, so \<^verbatim>\<open>register\<close> takes it for the pipe and the call of
  its \<^verbatim>\<open>unshift\<close> or \<^verbatim>\<open>push\<close>, which it has not, throws a TypeError. By then the call
  is in \<^verbatim>\<open>pending\<close> and has its unload check.
\<close>

definition register :: "cid \<Rightarrow> 'e world \<Rightarrow> registration outcome \<times> 'e world" where
  "register c w =
     (let call = calls w c;
          w1 = w\<lparr>pending := put_pending c (pending w)\<rparr>;
          (name, w2) = unloadCheck (TwoArgs None (pending_message call)) w1;
          w3 = w2\<lparr>calls := (calls w2)(c := (calls w2 c)\<lparr>unloadId := name\<rparr>)\<rparr>
      in if pipeName call \<noteq> [] then
           (case pipes_get w3 (pipeName call) of
              Inherited len \<Rightarrow>
                (Throw (TypeError
                   (if prioritize call \<and> (case len of None \<Rightarrow> False | Some k \<Rightarrow> k > 0)
                    then ''pipe.unshift is not a function''
                    else ''pipe.push is not a function'')), w3)
            | _ \<Rightarrow>
                (let pipe = pipe_of w3 (pipeName call);
                     pipe' = pipe_insert (prioritize call) c pipe;
                     w4 = w3\<lparr>pipes := AList.update (pipeName call) pipe' (pipes w3)\<rparr>
                 in if length pipe' > 1 then (Return delay, w4) else (Return proceed, w4)))
         else (Return proceed, w3))"

text \<open>\<^verbatim>\<open>jQuery.inArray\<close>: the first index holding the element, \<open>None\<close> for -1.\<close>

fun inArray :: "cid \<Rightarrow> cid option list \<Rightarrow> nat option" where
  "inArray c [] = None"
| "inArray c (x # xs) = (if x = Some c then Some 0 else map_option Suc (inArray c xs))"

definition delete_pending :: "cid \<Rightarrow> cid option list \<Rightarrow> cid option list" where
  "delete_pending c xs = (case inArray c xs of None \<Rightarrow> xs | Some i \<Rightarrow> xs[i := None])"

definition deregister :: "cid \<Rightarrow> 'e world \<Rightarrow> unit outcome \<times> 'e world" where
  "deregister c w =
     (let call = calls w c;
          w1 = snd (unloadCheck (OneArg (unloadId call)) w)
      in if pipeName call \<noteq> [] then
           (case pipes_get w1 (pipeName call) of
              Absent \<Rightarrow> (Throw (Thrown (''Unknown pipe \"'' @ pipeName call @ ''\"'')), w1)
            | Inherited len \<Rightarrow> (Throw (TypeError ''pipe.shift is not a function''), w1)
            | Array pipe \<Rightarrow>
                (let pipe' = tl pipe;
                     w2 = w1\<lparr>pipes := AList.update (pipeName call) pipe' (pipes w1)\<rparr>;
                     w3 = (if pipe' \<noteq> [] then makeRequest (hd pipe') w2 else w2)
                 in (Return (), w3\<lparr>pending := delete_pending c (pending w3)\<rparr>)))
         else (Return (), w1\<lparr>pending := delete_pending c (pending w1)\<rparr>))"

text \<open>
  \<^verbatim>\<open>pipeLength\<close> throws only when \<^verbatim>\<open>pipes[pipeName]\<close> is undefined; otherwise it returns
  the \<^verbatim>\<open>length\<close> of what it finds, which for \<^verbatim>\<open>__proto__\<close> is undefined (\<open>Return None\<close>).
\<close>

definition pipeLength :: "string \<Rightarrow> 'e world \<Rightarrow> nat option outcome" where
  "pipeLength name w =
     (case pipes_get w name of
        Absent \<Rightarrow> Throw (Thrown (''Unknown pipe \"'' @ name @ ''\"''))
      | Array pipe \<Rightarrow> Return (Some (length pipe))
      | Inherited len \<Rightarrow> Return len)"

text \<open>
  The promise comes from the module \<^verbatim>\<open>async\<close>, which is not part of this repository.
  Its boundary as the source uses it: \<^verbatim>\<open>fulfill\<close> and \<^verbatim>\<open>smash\<close> settle an unsettled promise
  and run the callback given to \<^verbatim>\<open>when\<close>, respectively \<^verbatim>\<open>fail\<close>, which here is
  \<^verbatim>\<open>deregister(call)\<close>; on a settled promise they do nothing. What the callback throws
  reaches the caller.
\<close>

definition settle :: "cid \<Rightarrow> settlement \<Rightarrow> 'e world \<Rightarrow> unit outcome \<times> 'e world" where
  "settle c s w =
     (if promise (calls w c) = Unsettled
      then deregister c (w\<lparr>calls := (calls w)(c := (calls w c)\<lparr>promise := s\<rparr>)\<rparr>)
      else (Return (), w))"

definition fulfill :: "cid \<Rightarrow> string \<Rightarrow> 'e world \<Rightarrow> unit outcome \<times> 'e world" where
  "fulfill c response w = settle c (Fulfilled response) w"

definition smash :: "cid \<Rightarrow> string \<Rightarrow> 'e world \<Rightarrow> unit outcome \<times> 'e world" where
  "smash c reason w = settle c (Smashed reason) w"

text \<open>The two callbacks \<^verbatim>\<open>makeRequest\<close> hands to the transport.\<close>

definition ajax_error :: "cid \<Rightarrow> string \<Rightarrow> string \<Rightarrow> 'e world \<Rightarrow> unit outcome \<times> 'e world" where
  "ajax_error c textStatus responseText w =
     (if abandoned (calls w c) then (Return (), w)
      else smash c (textStatus @ '': '' @ responseText) w)"

definition ajax_success :: "cid \<Rightarrow> string \<Rightarrow> 'e world \<Rightarrow> unit outcome \<times> 'e world" where
  "ajax_success c response w =
     (if abandoned (calls w c) then (Return (), w) else fulfill c response w)"

text \<open>\<^verbatim>\<open>call.abandon\<close>.\<close>

definition call_abandon :: "cid \<Rightarrow> 'e world \<Rightarrow> unit outcome \<times> 'e world" where
  "call_abandon c w =
     deregister c (w\<lparr>calls := (calls w)(c := (calls w c)\<lparr>abandoned := True\<rparr>)\<rparr>)"

text \<open>
  \<^verbatim>\<open>abandon(method, url)\<close> walks the indices from 0 while \<^verbatim>\<open>i < pending.length\<close>, testing
  the bound and reading the array afresh at each index. The loop never lengthens the
  array (\<open>length_pending_call_abandon\<close> below), so the indices below the length at
  entry are all it can visit. An exception thrown by \<^verbatim>\<open>call.abandon\<close> ends the loop.
\<close>

fun abandon_loop :: "string \<Rightarrow> string \<Rightarrow> nat list \<Rightarrow> 'e world \<Rightarrow> unit outcome \<times> 'e world" where
  "abandon_loop m u [] w = (Return (), w)"
| "abandon_loop m u (i # is) w =
     (if i < length (pending w) then
        (case pending w ! i of
           None \<Rightarrow> abandon_loop m u is w
         | Some c \<Rightarrow>
             if method' (calls w c) = m \<and> url (calls w c) = u then
               (case call_abandon c w of
                  (Throw e, w') \<Rightarrow> (Throw e, w')
                | (Return _, w') \<Rightarrow> abandon_loop m u is w')
             else abandon_loop m u is w)
      else (Return (), w))"

definition abandon :: "string \<Rightarrow> string \<Rightarrow> 'e world \<Rightarrow> unit outcome \<times> 'e world" where
  "abandon m u w = abandon_loop m u [0 ..< length (pending w)] w"

text \<open>\<^verbatim>\<open>x || d\<close> on an optional string.\<close>

definition or_else :: "string option \<Rightarrow> string \<Rightarrow> string" where
  "or_else v d = (case v of None \<Rightarrow> d | Some s \<Rightarrow> if s = [] then d else s)"

definition new_call :: "args \<Rightarrow> call" where
  "new_call a =
     \<lparr>url = arg_url a, method' = or_else (arg_method a) ''GET'',
      data = (case arg_data a of None \<Rightarrow> [] | Some d \<Rightarrow> d),
      readOnly = arg_readOnly a, pipeName = or_else (arg_pipeName a) [],
      prioritize = arg_prioritize a, async = (\<not> arg_sync a),
      unloadId = None, abandoned = False, promise = Unsettled\<rparr>"

definition allocate :: "args \<Rightarrow> 'e world \<Rightarrow> cid \<times> 'e world" where
  "allocate a w = (nextId w, w\<lparr>calls := (calls w)(nextId w := new_call a), nextId := Suc (nextId w)\<rparr>)"

text \<open>
  \<^verbatim>\<open>Call\<close> as the source has it. The branch taken when the gate lets the call through
  reads \<^verbatim>\<open>pending.register(call)\<close>: \<^verbatim>\<open>pending\<close> is the array, which has no property
  \<^verbatim>\<open>register\<close> (the function \<^verbatim>\<open>register\<close> is a local of the closure), so the call of the
  undefined property throws a TypeError before anything is registered.
\<close>

definition Call :: "args \<Rightarrow> 'e world \<Rightarrow> cid outcome \<times> 'e world" where
  "Call a w =
     (let (c, w1) = allocate a w
      in if \<not> readOnly (calls w1 c) \<and> service_readOnly w1 then
           (case smash c ''All non read-only requests have been disabled!'' w1 of
              (Throw e, w2) \<Rightarrow> (Throw e, w2)
            | (Return _, w2) \<Rightarrow> (Return c, w2))
         else (Throw (TypeError ''pending.register is not a function''), w1))"

text \<open>
  The admission sequence that branch spells out, with the closure's own \<^verbatim>\<open>register\<close>:
  register the new call and, on \<^verbatim>\<open>'proceed'\<close>, issue its request. It is the only way
  a call enters \<^verbatim>\<open>pending\<close> and a pipe, so the properties of registration, of the pipes
  and of abandonment are stated over it.
\<close>

definition admit :: "args \<Rightarrow> 'e world \<Rightarrow> cid outcome \<times> 'e world" where
  "admit a w =
     (let (c, w1) = allocate a w;
          (r, w2) = register c w1
      in case r of
           Throw e \<Rightarrow> (Throw e, w2)
         | Return result \<Rightarrow> (Return c, if result = proceed then makeRequest c w2 else w2))"

section \<open>Runs\<close>

text \<open>
  The events that drive a Service: a client calls \<^verbatim>\<open>Call\<close>, \<^verbatim>\<open>abandon\<close> or
  \<^verbatim>\<open>unloadCheck\<close> or sets the property \<^verbatim>\<open>readOnly\<close>, and the transport calls \<^verbatim>\<open>success\<close> or
  \<^verbatim>\<open>error\<close> of a request. The admission sequence, \<^verbatim>\<open>deregister\<close> and \<^verbatim>\<open>call.abandon\<close> are
  events of their own, for any call, so that a run covers more than the clients and
  the transport can do. An exception ends the event and leaves the state as it was
  when it was thrown.
\<close>

datatype 'e event =
    Admit args
  | CallEv args
  | Success cid string
  | Failure cid string string
  | Deregister cid
  | CallAbandon cid
  | Abandon string string
  | UnloadCheck "'e check_args"
  | SetReadOnly bool

fun exec :: "'e event \<Rightarrow> 'e world \<Rightarrow> 'e world" where
  "exec (Admit a) w = snd (admit a w)"
| "exec (CallEv a) w = snd (Call a w)"
| "exec (Success c response) w = snd (ajax_success c response w)"
| "exec (Failure c textStatus responseText) w = snd (ajax_error c textStatus responseText w)"
| "exec (Deregister c) w = snd (deregister c w)"
| "exec (CallAbandon c) w = snd (call_abandon c w)"
| "exec (Abandon m u) w = snd (abandon m u w)"
| "exec (UnloadCheck ca) w = snd (unloadCheck ca w)"
| "exec (SetReadOnly b) w = w\<lparr>service_readOnly := b\<rparr>"

definition run :: "'e event list \<Rightarrow> 'e world \<Rightarrow> 'e world" where
  "run evs w = fold exec evs w"

definition dispatched :: "'e world \<Rightarrow> cid \<Rightarrow> bool" where
  "dispatched w c = (c \<in> rq_call ` set (ajax w))"

section \<open>The page-unload handler\<close>

text \<open>
  \<^verbatim>\<open>window.onbeforeunload\<close> walks the properties of \<^verbatim>\<open>unloadChecks\<close> (its own ones:
  \<^verbatim>\<open>Object.prototype\<close> has no enumerable member) and keeps those for which
  \<^verbatim>\<open>unloadChecks.hasOwnProperty(i)\<close> is truthy. The method is looked up on the registry
  itself: when a check is stored under the name \<^verbatim>\<open>hasOwnProperty\<close>, it is that check
  that is called, and its result decides; otherwise it is the inherited method, which
  says whether \<open>i\<close> is a key. A check returns a string here, truthy when not empty, and
  ignores arguments.
\<close>

definition hasOwnProperty :: "(string \<times> 'e producer) list \<Rightarrow> string \<Rightarrow> 'e \<Rightarrow> bool \<times> 'e" where
  "hasOwnProperty checks i env =
     (case map_of checks ''hasOwnProperty'' of
        None \<Rightarrow> (i \<in> fst ` set checks, env)
      | Some h \<Rightarrow> (let (s, env') = h env in (s \<noteq> [], env')))"

text \<open>
  For each property kept, the handler calls the check, and when the result is truthy
  it calls the check again and appends what the second call returns and a line feed.
  \<open>unload_loop checks rest\<close> is the loop with the properties \<open>rest\<close> still to visit.
  \<open>has_event\<close> says whether \<^verbatim>\<open>e || window.event\<close> is an object; the result is the value
  returned (\<open>None\<close> for undefined) and the \<^verbatim>\<open>returnValue\<close> set on the event, if any.
\<close>

fun unload_loop ::
  "(string \<times> 'e producer) list \<Rightarrow> (string \<times> 'e producer) list \<Rightarrow> string \<Rightarrow> 'e \<Rightarrow> string \<times> 'e" where
  "unload_loop checks [] message env = (message, env)"
| "unload_loop checks ((i, f) # rest) message env =
     (let (own, env0) = hasOwnProperty checks i env
      in if own then
           (let (check, env1) = f env0
            in if check \<noteq> [] then
                 (let (again, env2) = f env1
                  in unload_loop checks rest (message @ again @ [CHR 0x0A]) env2)
               else unload_loop checks rest message env1)
         else unload_loop checks rest message env0)"

definition onbeforeunload ::
  "bool \<Rightarrow> (string \<times> 'e producer) list \<Rightarrow> 'e \<Rightarrow> (string option \<times> string option) \<times> 'e" where
  "onbeforeunload has_event checks env =
     (let (message, env') = unload_loop checks checks [] env
      in if message = [] then ((None, None), env')
         else ((Some message, if has_event then Some message else None), env'))"

text \<open>
  To observe the calls, a check is wrapped so that it also appends its name and its
  result to a log carried beside the state; \<open>invocations i log\<close> are the results of the
  calls of the check \<open>i\<close>, in order.
\<close>

definition traced :: "string \<Rightarrow> 'e producer \<Rightarrow> ('e \<times> (string \<times> string) list) producer" where
  "traced i f = (\<lambda>(env, log). let (s, env') = f env in (s, (env', log @ [(i, s)])))"

definition instrument ::
  "(string \<times> 'e producer) list \<Rightarrow> (string \<times> ('e \<times> (string \<times> string) list) producer) list" where
  "instrument checks = map (\<lambda>(i, f). (i, traced i f)) checks"

definition invocations :: "string \<Rightarrow> (string \<times> string) list \<Rightarrow> string list" where
  "invocations i log = map snd (filter (\<lambda>x. fst x = i) log)"

text \<open>What a check with the given results adds to the message.\<close>

fun appended :: "string list \<Rightarrow> string" where
  "appended [first, second] = second @ [CHR 0x0A]"
| "appended results = []"

section \<open>Predicates on states\<close>

text \<open>The keys of \<^verbatim>\<open>unloadChecks\<close> are truthy strings, each present once.\<close>

definition keys_ok :: "'e world \<Rightarrow> bool" where
  "keys_ok w = ([] \<notin> fst ` set (unloadChecks w) \<and> distinct (map fst (unloadChecks w)))"

text \<open>
  The bookkeeping is well formed: a pipe has a name, holds each call once, and its
  members are calls created so far that carry the pipe's name and have been through
  \<^verbatim>\<open>register\<close>; no member behind the head has been handed to the transport; and every
  call in \<^verbatim>\<open>pending\<close> or handed to the transport has been created and registered.
\<close>

definition registered :: "'e world \<Rightarrow> cid \<Rightarrow> bool" where
  "registered w c = (c < nextId w \<and> unloadId (calls w c) \<noteq> None)"

definition pipes_ok :: "'e world \<Rightarrow> bool" where
  "pipes_ok w =
     ((\<forall>n q. map_of (pipes w) n = Some q \<longrightarrow>
         n \<noteq> [] \<and> distinct q \<and>
         (\<forall>c \<in> set q. registered w c \<and> pipeName (calls w c) = n) \<and>
         (\<forall>c \<in> set (tl q). \<not> dispatched w c)) \<and>
      (\<forall>c. dispatched w c \<longrightarrow> registered w c) \<and>
      (\<forall>c. Some c \<in> set (pending w) \<longrightarrow> registered w c))"

text \<open>
  An event registers a call under a pipe name when it admits a call with that name;
  the empty name is no pipe, and under an inherited name no pipe is ever created.
\<close>

fun registers_under :: "string \<Rightarrow> 'e event \<Rightarrow> bool" where
  "registers_under name (Admit a) =
     (name \<noteq> [] \<and> map_of object_prototype name = None \<and> pipeName (new_call a) = name)"
| "registers_under name ev = False"

section \<open>Example inputs\<close>

definition rnd0 :: "nat \<Rightarrow> nat" where
  "rnd0 k = k"

definition save_a :: args where
  "save_a = \<lparr>arg_url = ''/a'', arg_method = Some ''POST'', arg_data = None,
     arg_readOnly = False, arg_pipeName = Some ''p'', arg_prioritize = False, arg_sync = True\<rparr>"

definition save_b :: args where
  "save_b = \<lparr>arg_url = ''/save'', arg_method = Some ''POST'', arg_data = None,
     arg_readOnly = False, arg_pipeName = Some ''p'', arg_prioritize = False, arg_sync = False\<rparr>"

definition urgent :: args where
  "urgent = \<lparr>arg_url = ''/c'', arg_method = None, arg_data = None,
     arg_readOnly = False, arg_pipeName = Some ''p'', arg_prioritize = True, arg_sync = False\<rparr>"

definition on_constructor :: args where
  "on_constructor = \<lparr>arg_url = ''/a'', arg_method = None, arg_data = None,
     arg_readOnly = False, arg_pipeName = Some ''constructor'', arg_prioritize = False,
     arg_sync = False\<rparr>"

definition urgent_on_constructor :: args where
  "urgent_on_constructor = \<lparr>arg_url = ''/c'', arg_method = None, arg_data = None,
     arg_readOnly = False, arg_pipeName = Some ''constructor'', arg_prioritize = True,
     arg_sync = False\<rparr>"

definition post_x :: args where
  "post_x = \<lparr>arg_url = ''/x'', arg_method = None, arg_data = None,
     arg_readOnly = False, arg_pipeName = None, arg_prioritize = False, arg_sync = False\<rparr>"

text \<open>The object \<^verbatim>\<open>{readOnly: true}\<close>, as a client might pass it to \<^verbatim>\<open>Service\<close>.\<close>

record options =
  opt_readOnly :: bool

definition read_only_options :: options where
  "read_only_options = \<lparr>opt_readOnly = True\<rparr>"

definition fresh_service :: "unit world" where
  "fresh_service = Service () rnd0"

definition draft_check :: "nat producer" where
  "draft_check n = (if n = 0 then ''unsaved draft'' else ''unsaved draft (asked again)'', Suc n)"

definition quiet_check :: "nat producer" where
  "quiet_check n = ([], n)"

section \<open>What each operation changes\<close>

lemma length_replace_xy: "length (fst (replace_xy rnd k s)) = length s"
  by (induction s arbitrary: k) (simp_all add: Let_def split_def)

declare replace_xy.simps [simp del]

lemma uuid_nonempty: "fst (uuid w) \<noteq> []"
proof -
  have "length (fst (uuid w)) = length ''xxxxxxxx-xxxx-4xxx-yxxx-xxxxxxxxxxxx''"
    unfolding uuid_def split_def Let_def fst_conv by (rule length_replace_xy)
  then show ?thesis by auto
qed

lemma uuid_frame:
  "calls (snd (uuid w)) = calls w" "nextId (snd (uuid w)) = nextId w"
  "pending (snd (uuid w)) = pending w" "pipes (snd (uuid w)) = pipes w"
  "service_readOnly (snd (uuid w)) = service_readOnly w"
  "unloadChecks (snd (uuid w)) = unloadChecks w" "ajax (snd (uuid w)) = ajax w"
  "random (snd (uuid w)) = random w"
  by (simp_all add: uuid_def split_def Let_def)

lemma resolve_name_frame:
  "calls (snd (resolve_name name w)) = calls w" "nextId (snd (resolve_name name w)) = nextId w"
  "pending (snd (resolve_name name w)) = pending w" "pipes (snd (resolve_name name w)) = pipes w"
  "service_readOnly (snd (resolve_name name w)) = service_readOnly w"
  "unloadChecks (snd (resolve_name name w)) = unloadChecks w"
  "ajax (snd (resolve_name name w)) = ajax w" "random (snd (resolve_name name w)) = random w"
  by (simp_all add: resolve_name_def uuid_frame split: option.splits)

lemma resolve_name_nonempty: "fst (resolve_name name w) \<noteq> []"
  by (simp add: resolve_name_def uuid_nonempty split: option.splits)

lemma resolve_name_given: "name \<noteq> [] \<Longrightarrow> resolve_name (Some name) w = (name, w)"
  by (simp add: resolve_name_def)

lemma unloadCheck_frame:
  "calls (snd (unloadCheck ca w)) = calls w" "nextId (snd (unloadCheck ca w)) = nextId w"
  "pending (snd (unloadCheck ca w)) = pending w" "pipes (snd (unloadCheck ca w)) = pipes w"
  "service_readOnly (snd (unloadCheck ca w)) = service_readOnly w"
  "ajax (snd (unloadCheck ca w)) = ajax w" "random (snd (unloadCheck ca w)) = random w"
  by (simp_all add: unloadCheck_def resolve_name_frame split_def Let_def
      split: check_args.splits)

lemma unloadCheck_checks:
  "unloadChecks (snd (unloadCheck (OneArg name) w)) =
     AList.delete (fst (resolve_name name w)) (unloadChecks w)"
  "unloadChecks (snd (unloadCheck (TwoArgs name check) w)) =
     AList.update (fst (resolve_name name w)) check (unloadChecks w)"
  "fst (unloadCheck (TwoArgs name check) w) = Some (fst (resolve_name name w))"
  "fst (unloadCheck (OneArg name) w) = None"
  by (simp_all add: unloadCheck_def split_def Let_def resolve_name_frame)

lemma unloadCheck_drawn:
  "drawn (snd (unloadCheck (OneArg name) w)) = drawn (snd (resolve_name name w))"
  "drawn (snd (unloadCheck (TwoArgs name check) w)) = drawn (snd (resolve_name name w))"
  by (simp_all add: unloadCheck_def split_def Let_def)

lemma uuid_value:
  "fst (uuid w) = fst (replace_xy (random w) (drawn w) ''xxxxxxxx-xxxx-4xxx-yxxx-xxxxxxxxxxxx'')"
  "drawn (snd (uuid w)) = snd (replace_xy (random w) (drawn w) ''xxxxxxxx-xxxx-4xxx-yxxx-xxxxxxxxxxxx'')"
  by (simp_all add: uuid_def split_def Let_def)

lemma makeRequest_frame:
  "calls (makeRequest c w) = calls w" "nextId (makeRequest c w) = nextId w"
  "pending (makeRequest c w) = pending w" "pipes (makeRequest c w) = pipes w"
  "service_readOnly (makeRequest c w) = service_readOnly w"
  "unloadChecks (makeRequest c w) = unloadChecks w"
  "random (makeRequest c w) = random w" "drawn (makeRequest c w) = drawn w"
  "ajax (makeRequest c w) = ajax w @ [ajax_options (calls w c) c]"
  by (simp_all add: makeRequest_def)

lemma inherited_iff:
  "inherited w name \<longleftrightarrow>
     map_of (pipes w) name = None \<and> map_of object_prototype name \<noteq> None"
  by (auto simp add: inherited_def pipes_get_def split: option.splits)

lemma pipes_get_cases:
  "pipes_get w name =
     (case map_of (pipes w) name of
        Some q \<Rightarrow> Array q
      | None \<Rightarrow> if inherited w name then Inherited (the (map_of object_prototype name)) else Absent)"
  by (auto simp add: inherited_def pipes_get_def split: option.splits)

lemma pipes_get_update [simp]:
  "pipes_get (w\<lparr>calls := f\<rparr>) n = pipes_get w n"
  "pipes_get (w\<lparr>nextId := k\<rparr>) n = pipes_get w n"
  "pipes_get (w\<lparr>pending := p\<rparr>) n = pipes_get w n"
  by (simp_all add: pipes_get_def)

lemma inherited_update [simp]:
  "inherited (w\<lparr>calls := f\<rparr>) n = inherited w n"
  "inherited (w\<lparr>nextId := k\<rparr>) n = inherited w n"
  "inherited (w\<lparr>pending := p\<rparr>) n = inherited w n"
  by (simp_all add: inherited_def)

lemma pipes_get_frame:
  "pipes_get (snd (unloadCheck ca w)) n = pipes_get w n"
  by (simp add: pipes_get_def unloadCheck_frame)

lemma register_frame:
  "nextId (snd (register c w)) = nextId w"
  "service_readOnly (snd (register c w)) = service_readOnly w"
  "ajax (snd (register c w)) = ajax w" "random (snd (register c w)) = random w"
  "pending (snd (register c w)) = put_pending c (pending w)"
  "calls (snd (register c w)) = (calls w)(c := (calls w c)\<lparr>unloadId := Some (fst (uuid w))\<rparr>)"
  "unloadChecks (snd (register c w)) =
     AList.update (fst (uuid w)) (pending_message (calls w c)) (unloadChecks w)"
  "drawn (snd (register c w)) = drawn (snd (uuid w))"
  by (simp_all add: register_def Let_def split_def unloadCheck_frame unloadCheck_checks
      unloadCheck_drawn resolve_name_def uuid_value split: slot.splits)

lemma register_pipes:
  "pipes (snd (register c w)) =
     (if pipeName (calls w c) = [] \<or> inherited w (pipeName (calls w c)) then pipes w
      else AList.update (pipeName (calls w c))
             (pipe_insert (prioritize (calls w c)) c (pipe_of w (pipeName (calls w c))))
             (pipes w))"
  by (simp add: register_def Let_def split_def unloadCheck_frame pipe_of_def pipes_get_frame
      inherited_def split: slot.splits)

lemma register_result:
  "fst (register c w) =
     (if pipeName (calls w c) \<noteq> [] \<and> inherited w (pipeName (calls w c))
      then Throw (TypeError
             (if prioritize (calls w c) \<and>
                 (case the (map_of object_prototype (pipeName (calls w c))) of
                    None \<Rightarrow> False | Some k \<Rightarrow> k > 0)
              then ''pipe.unshift is not a function''
              else ''pipe.push is not a function''))
      else Return (if pipeName (calls w c) \<noteq> [] \<and> pipe_of w (pipeName (calls w c)) \<noteq> []
                   then delay else proceed))"
  by (auto simp add: register_def Let_def split_def unloadCheck_frame pipe_of_def
      pipe_insert_def pipes_get_frame inherited_def pipes_get_def split: slot.splits option.splits)

lemma deregister_frame:
  "calls (snd (deregister c w)) = calls w" "nextId (snd (deregister c w)) = nextId w"
  "service_readOnly (snd (deregister c w)) = service_readOnly w"
  "random (snd (deregister c w)) = random w"
  "unloadChecks (snd (deregister c w)) =
     AList.delete (fst (resolve_name (unloadId (calls w c)) w)) (unloadChecks w)"
  "drawn (snd (deregister c w)) = drawn (snd (resolve_name (unloadId (calls w c)) w))"
  by (simp_all add: deregister_def Let_def unloadCheck_frame unloadCheck_checks
      makeRequest_frame unloadCheck_drawn split: slot.splits)

lemma deregister_pipes:
  "pipes (snd (deregister c w)) =
     (if pipeName (calls w c) = [] then pipes w
      else case map_of (pipes w) (pipeName (calls w c)) of
             None \<Rightarrow> pipes w
           | Some q \<Rightarrow> AList.update (pipeName (calls w c)) (tl q) (pipes w))"
  by (simp add: deregister_def Let_def unloadCheck_frame makeRequest_frame pipes_get_frame
      pipes_get_def split: slot.splits option.splits)

lemma deregister_ajax:
  "ajax (snd (deregister c w)) =
     (if pipeName (calls w c) = [] then ajax w
      else case map_of (pipes w) (pipeName (calls w c)) of
             None \<Rightarrow> ajax w
           | Some q \<Rightarrow> if tl q = [] then ajax w
                      else ajax w @ [ajax_options (calls w (hd (tl q))) (hd (tl q))])"
  by (simp add: deregister_def Let_def unloadCheck_frame makeRequest_frame pipes_get_frame
      pipes_get_def split: slot.splits option.splits)

lemma deregister_pending:
  "pending (snd (deregister c w)) =
     (if pipeName (calls w c) \<noteq> [] \<and> map_of (pipes w) (pipeName (calls w c)) = None
      then pending w else delete_pending c (pending w))"
  by (simp add: deregister_def Let_def unloadCheck_frame makeRequest_frame pipes_get_frame
      pipes_get_def split: slot.splits option.splits)

lemma deregister_result:
  "fst (deregister c w) =
     (if pipeName (calls w c) \<noteq> [] \<and> map_of (pipes w) (pipeName (calls w c)) = None
      then (if inherited w (pipeName (calls w c))
            then Throw (TypeError ''pipe.shift is not a function'')
            else Throw (Thrown (''Unknown pipe \"'' @ pipeName (calls w c) @ ''\"'')))
      else Return ())"
  by (simp add: deregister_def Let_def unloadCheck_frame pipes_get_frame pipes_get_def
      inherited_def split: slot.splits option.splits)

lemma ajax_options_update [simp]:
  "ajax_options (call\<lparr>unloadId := x\<rparr>) c = ajax_options call c"
  "ajax_options (call\<lparr>promise := s\<rparr>) c = ajax_options call c"
  "ajax_options (call\<lparr>abandoned := b\<rparr>) c = ajax_options call c"
  "rq_call (ajax_options call c) = c"
  by (simp_all add: ajax_options_def call_sync_def)

lemma pipe_of_update [simp]:
  "pipe_of (w\<lparr>calls := f\<rparr>) n = pipe_of w n"
  "pipe_of (w\<lparr>nextId := k\<rparr>) n = pipe_of w n"
  "pipe_of (w\<lparr>pending := p\<rparr>) n = pipe_of w n"
  by (simp_all add: pipe_of_def)

lemma uuid_update [simp]:
  "fst (uuid (w\<lparr>calls := f\<rparr>)) = fst (uuid w)"
  "fst (uuid (w\<lparr>nextId := k\<rparr>)) = fst (uuid w)"
  "drawn (snd (uuid (w\<lparr>calls := f\<rparr>))) = drawn (snd (uuid w))"
  "drawn (snd (uuid (w\<lparr>nextId := k\<rparr>))) = drawn (snd (uuid w))"
  by (simp_all add: uuid_value)

lemma allocate_frame:
  "fst (allocate a w) = nextId w"
  "calls (snd (allocate a w)) = (calls w)(nextId w := new_call a)"
  "nextId (snd (allocate a w)) = Suc (nextId w)"
  "pending (snd (allocate a w)) = pending w" "pipes (snd (allocate a w)) = pipes w"
  "service_readOnly (snd (allocate a w)) = service_readOnly w"
  "unloadChecks (snd (allocate a w)) = unloadChecks w" "ajax (snd (allocate a w)) = ajax w"
  "random (snd (allocate a w)) = random w" "drawn (snd (allocate a w)) = drawn w"
  by (simp_all add: allocate_def)

lemma admit_world:
  "snd (admit a w) =
     (if fst (register (nextId w) (snd (allocate a w))) = Return proceed
      then makeRequest (nextId w) (snd (register (nextId w) (snd (allocate a w))))
      else snd (register (nextId w) (snd (allocate a w))))"
  by (cases "fst (register (nextId w) (snd (allocate a w)))")
    (auto simp add: admit_def allocate_def split_def Let_def)

lemma admit_frame:
  "nextId (snd (admit a w)) = Suc (nextId w)"
  "service_readOnly (snd (admit a w)) = service_readOnly w"
  "random (snd (admit a w)) = random w"
  "drawn (snd (admit a w)) = drawn (snd (uuid w))"
  "pending (snd (admit a w)) = put_pending (nextId w) (pending w)"
  "calls (snd (admit a w)) =
     (calls w)(nextId w := (new_call a)\<lparr>unloadId := Some (fst (uuid w))\<rparr>)"
  "unloadChecks (snd (admit a w)) =
     AList.update (fst (uuid w)) (pending_message (new_call a)) (unloadChecks w)"
  by (simp_all add: admit_world allocate_frame register_frame makeRequest_frame
      uuid_value)

lemma inherited_allocate [simp]: "inherited (snd (allocate a w)) n = inherited w n"
  by (simp add: inherited_iff allocate_frame)

lemma pipe_of_allocate [simp]: "pipe_of (snd (allocate a w)) n = pipe_of w n"
  by (simp add: pipe_of_def allocate_frame)

lemma admit_pipes:
  "pipes (snd (admit a w)) =
     (if pipeName (new_call a) = [] \<or> inherited w (pipeName (new_call a)) then pipes w
      else AList.update (pipeName (new_call a))
             (pipe_insert (prioritize (new_call a)) (nextId w) (pipe_of w (pipeName (new_call a))))
             (pipes w))"
  by (simp add: admit_world allocate_frame register_pipes makeRequest_frame)

lemma admit_ajax:
  "ajax (snd (admit a w)) =
     (if pipeName (new_call a) \<noteq> [] \<and>
         (inherited w (pipeName (new_call a)) \<or> pipe_of w (pipeName (new_call a)) \<noteq> [])
      then ajax w
      else ajax w @ [ajax_options (new_call a) (nextId w)])"
  by (simp add: admit_world allocate_frame register_frame register_result makeRequest_frame)

lemma admit_result:
  "fst (admit a w) =
     (case fst (register (nextId w) (snd (allocate a w))) of
        Throw e \<Rightarrow> Throw e
      | Return result \<Rightarrow> Return (nextId w))"
  by (cases "fst (register (nextId w) (snd (allocate a w)))")
    (auto simp add: admit_def allocate_def split_def Let_def)

lemma settle_world:
  "snd (settle c s w) =
     (if promise (calls w c) = Unsettled
      then snd (deregister c (w\<lparr>calls := (calls w)(c := (calls w c)\<lparr>promise := s\<rparr>)\<rparr>))
      else w)"
  by (simp add: settle_def)

lemma ajax_success_world:
  "snd (ajax_success c r w) =
     (if abandoned (calls w c) then w else snd (settle c (Fulfilled r) w))"
  by (simp add: ajax_success_def fulfill_def)

lemma ajax_error_world:
  "snd (ajax_error c t b w) =
     (if abandoned (calls w c) then w else snd (settle c (Smashed (t @ '': '' @ b)) w))"
  by (simp add: ajax_error_def smash_def)

lemma Call_world:
  "snd (Call a w) =
     (if \<not> arg_readOnly a \<and> service_readOnly w
      then snd (settle (nextId w) (Smashed ''All non read-only requests have been disabled!'')
                 (snd (allocate a w)))
      else snd (allocate a w))"
  by (simp add: Call_def smash_def split_def Let_def allocate_frame new_call_def
      split: outcome.splits)

lemmas effects =
  admit_frame admit_pipes admit_ajax allocate_frame deregister_frame deregister_pipes
  deregister_ajax deregister_pending unloadCheck_frame unloadCheck_checks unloadCheck_drawn
  makeRequest_frame register_frame register_pipes

lemmas worlds = settle_world ajax_success_world ajax_error_world Call_world call_abandon_def


lemma length_delete_pending: "length (delete_pending c xs) = length xs"
  by (simp add: delete_pending_def split: option.splits)

lemma length_pending_call_abandon:
  "length (pending (snd (call_abandon c w))) = length (pending w)"
  by (simp add: call_abandon_def deregister_pending length_delete_pending)

section \<open>Properties kept by every event\<close>

lemma abandon_loop_preserves:
  assumes step: "\<And>c w. P w \<Longrightarrow> P (snd (call_abandon c w))" and "P w"
  shows "P (snd (abandon_loop m u ixs w))"
  using \<open>P w\<close>
proof (induction ixs arbitrary: w)
  case Nil
  then show ?case by simp
next
  case (Cons i ixs)
  show ?case
  proof (cases "i < length (pending w)")
    case False
    with Cons.prems show ?thesis by simp
  next
    case True
    show ?thesis
    proof (cases "pending w ! i")
      case None
      with True Cons show ?thesis by simp
    next
      case (Some c)
      show ?thesis
      proof (cases "method' (calls w c) = m \<and> url (calls w c) = u")
        case False
        with True Some Cons show ?thesis by auto
      next
        case match: True
        obtain r w' where ca: "call_abandon c w = (r, w')" by (cases "call_abandon c w")
        have "P w'" using step [OF Cons.prems, of c] ca by simp
        then show ?thesis
          using True Some match ca Cons.IH [of w'] by (cases r) simp_all
      qed
    qed
  qed
qed

lemma exec_preserves_other:
  assumes alloc: "\<And>a w. P w \<Longrightarrow> P (snd (allocate a w))"
    and dereg: "\<And>c w. P w \<Longrightarrow> P (snd (deregister c w))"
    and prom: "\<And>c s w. P w \<Longrightarrow> P (w\<lparr>calls := (calls w)(c := (calls w c)\<lparr>promise := s\<rparr>)\<rparr>)"
    and aban: "\<And>c w. P w \<Longrightarrow> P (w\<lparr>calls := (calls w)(c := (calls w c)\<lparr>abandoned := True\<rparr>)\<rparr>)"
    and chk: "\<And>ca w. P w \<Longrightarrow> P (snd (unloadCheck ca w))"
    and ro: "\<And>b w. P w \<Longrightarrow> P (w\<lparr>service_readOnly := b\<rparr>)"
    and "P w"
    and other: "\<And>a. ev \<noteq> Admit a"
  shows "P (exec ev w)"
proof -
  have settle: "P (snd (settle c s v))" if "P v" for c s v
    using that by (simp add: settle_world dereg prom)
  have ca: "P (snd (call_abandon c v))" if "P v" for c v
    using that by (simp add: call_abandon_def dereg aban)
  show ?thesis
  proof (cases ev)
    case (Admit a)
    then show ?thesis using other by simp
  next
    case (CallEv a)
    then show ?thesis using alloc settle \<open>P w\<close> by (simp add: Call_world)
  next
    case (Success c r)
    then show ?thesis using settle \<open>P w\<close> by (simp add: ajax_success_world)
  next
    case (Failure c t b)
    then show ?thesis using settle \<open>P w\<close> by (simp add: ajax_error_world)
  next
    case (Deregister c)
    then show ?thesis using dereg \<open>P w\<close> by simp
  next
    case (CallAbandon c)
    then show ?thesis using ca \<open>P w\<close> by simp
  next
    case (Abandon m u)
    then show ?thesis
      using abandon_loop_preserves [of P, OF ca \<open>P w\<close>] by (simp add: abandon_def)
  next
    case (UnloadCheck ca)
    then show ?thesis using chk \<open>P w\<close> by simp
  next
    case (SetReadOnly b)
    then show ?thesis using ro \<open>P w\<close> by simp
  qed
qed

lemma exec_preserves:
  assumes admit: "\<And>a w. P w \<Longrightarrow> P (snd (admit a w))"
    and alloc: "\<And>a w. P w \<Longrightarrow> P (snd (allocate a w))"
    and dereg: "\<And>c w. P w \<Longrightarrow> P (snd (deregister c w))"
    and prom: "\<And>c s w. P w \<Longrightarrow> P (w\<lparr>calls := (calls w)(c := (calls w c)\<lparr>promise := s\<rparr>)\<rparr>)"
    and aban: "\<And>c w. P w \<Longrightarrow> P (w\<lparr>calls := (calls w)(c := (calls w c)\<lparr>abandoned := True\<rparr>)\<rparr>)"
    and chk: "\<And>ca w. P w \<Longrightarrow> P (snd (unloadCheck ca w))"
    and ro: "\<And>b w. P w \<Longrightarrow> P (w\<lparr>service_readOnly := b\<rparr>)"
    and "P w"
  shows "P (exec ev w)"
proof (cases "\<exists>a. ev = Admit a")
  case True
  then show ?thesis using admit \<open>P w\<close> by auto
next
  case False
  then show ?thesis
    using exec_preserves_other [of P, OF alloc dereg prom aban chk ro \<open>P w\<close>] by blast
qed

lemma run_preserves:
  assumes "\<And>ev w. P w \<Longrightarrow> P (exec ev w)" and "P w"
  shows "P (run evs w)"
  using \<open>P w\<close> unfolding run_def
  by (induction evs arbitrary: w) (simp_all add: assms(1))

lemma run_append: "run (evs @ evs') w = run evs' (run evs w)"
  by (simp add: run_def)

lemma abandoned_kept:
  "abandoned (calls w c) \<and> c < nextId w \<Longrightarrow>
     abandoned (calls (exec ev w) c) \<and> c < nextId (exec ev w)"
  by (rule exec_preserves [where P = "\<lambda>w. abandoned (calls w c) \<and> c < nextId w"])
    (auto simp add: effects)

section \<open>Keys of a hash\<close>

lemma keys_update: "fst ` set (AList.update k v al) = insert k (fst ` set al)"
  by (induction al) auto

lemma keys_delete: "fst ` set (AList.delete k al) = fst ` set al - {k}"
  by (induction al) auto

lemma map_of_key: "map_of al k = Some v \<Longrightarrow> k \<in> fst ` set al"
  using map_of_SomeD by force

section \<open>Evaluating runs\<close>

lemma abandon_loop_step:
  "abandon_loop m u (i # ixs) w =
     (if i < length (pending w) then
        (case pending w ! i of
           None \<Rightarrow> abandon_loop m u ixs w
         | Some c \<Rightarrow>
             if method' (calls w c) = m \<and> url (calls w c) = u then
               (case fst (call_abandon c w) of
                  Throw e \<Rightarrow> (Throw e, snd (call_abandon c w))
                | Return _ \<Rightarrow> abandon_loop m u ixs (snd (call_abandon c w)))
             else abandon_loop m u ixs w)
      else (Return (), w))"
  by (cases "call_abandon c w") (auto split: option.splits outcome.splits prod.splits)

lemmas sweep = abandon_def abandon_loop_step deregister_result upt_rec

lemmas examples = save_a_def save_b_def urgent_def fresh_service_def Service_def
  new_call_def or_else_def pipe_of_def pipe_insert_def run_def delete_pending_def



section \<open>Registration: proceed or delay\<close>

lemma length_pipe_insert: "length (pipe_insert prio c pipe) = Suc (length pipe)"
  by (simp add: pipe_insert_def)

lemma pipeLength_register:
  "pipeName (calls w c) \<noteq> [] \<Longrightarrow> \<not> inherited w (pipeName (calls w c)) \<Longrightarrow>
     pipeLength (pipeName (calls w c)) (snd (register c w)) =
       Return (Some (Suc (length (pipe_of w (pipeName (calls w c))))))"
  by (simp add: pipeLength_def pipes_get_def register_pipes update_conv' length_pipe_insert)

text \<open>
  For a pipe name that is not an inherited one, \<^verbatim>\<open>register\<close> returns, and returns
  \<^verbatim>\<open>'delay'\<close> exactly when the call has a pipeName and \<^verbatim>\<open>pipeLength\<close> of that pipe, once the
  call is inserted, is greater than one.
\<close>

lemma register_delay_iff_ordinary:
  assumes "\<not> inherited w (pipeName (calls w c))"
  shows "(fst (register c w) = Return delay \<longleftrightarrow>
            pipeName (calls w c) \<noteq> [] \<and>
            (\<exists>n. 1 < n \<and>
               pipeLength (pipeName (calls w c)) (snd (register c w)) = Return (Some n))) \<and>
         (fst (register c w) = Return proceed \<longleftrightarrow>
            pipeName (calls w c) = [] \<or>
            pipeLength (pipeName (calls w c)) (snd (register c w)) = Return (Some 1))"
proof (cases "pipeName (calls w c) = []")
  case True
  then show ?thesis by (simp add: register_result)
next
  case False
  then show ?thesis
    using assms
    by (cases "pipe_of w (pipeName (calls w c))")
      (simp_all add: register_result pipeLength_register)
qed

text \<open>
  C2. A call with the pipeName \<^verbatim>\<open>constructor\<close> is registered on a new Service.
  \<^verbatim>\<open>pipes['constructor']\<close> is the inherited function \<^verbatim>\<open>Object\<close>, so no pipe is created and
  \<^verbatim>\<open>pipe.push(call)\<close> throws a TypeError: \<^verbatim>\<open>register\<close> returns neither \<^verbatim>\<open>'proceed'\<close> nor
  \<^verbatim>\<open>'delay'\<close>, although the call is in \<^verbatim>\<open>pending\<close> and \<^verbatim>\<open>pipeLength('constructor')\<close> is one.
\<close>

theorem register_inherited_name:
  "pipeName (new_call on_constructor) = ''constructor'' \<and>
   fst (register 0 (snd (allocate on_constructor fresh_service))) =
     Throw (TypeError ''pipe.push is not a function'') \<and>
   pending (snd (register 0 (snd (allocate on_constructor fresh_service)))) = [Some 0] \<and>
   pipes (snd (register 0 (snd (allocate on_constructor fresh_service)))) = [] \<and>
   pipeLength ''constructor'' (snd (register 0 (snd (allocate on_constructor fresh_service)))) =
     Return (Some 1)"
proof -
  let ?w = "snd (allocate on_constructor fresh_service)"
  have n: "pipeName (new_call on_constructor) = ''constructor''"
    by (simp add: on_constructor_def new_call_def or_else_def)
  have c: "pipeName (calls ?w 0) = ''constructor''" "prioritize (calls ?w 0) = False"
    "pipes ?w = []" "pending ?w = []"
    by (simp_all add: allocate_frame examples on_constructor_def)
  have i: "inherited fresh_service ''constructor''"
    by (simp add: inherited_iff examples object_prototype_def)
  have r: "fst (register 0 ?w) = Throw (TypeError ''pipe.push is not a function'')"
    by (simp add: register_result c i)
  have p: "pending (snd (register 0 ?w)) = [Some 0]" "pipes (snd (register 0 ?w)) = []"
    by (simp_all add: register_frame register_pipes c i)
  have l: "pipeLength ''constructor'' (snd (register 0 ?w)) = Return (Some 1)"
    by (simp add: pipeLength_def pipes_get_def p object_prototype_def)
  from n r p l show ?thesis by simp
qed

section \<open>Callbacks of an abandoned call\<close>

lemma abandoned_kept_run:
  "abandoned (calls w c) \<and> c < nextId w \<Longrightarrow>
     abandoned (calls (run evs w) c) \<and> c < nextId (run evs w)"
  by (rule run_preserves [where P = "\<lambda>w. abandoned (calls w c) \<and> c < nextId w"])
    (rule abandoned_kept)

text \<open>
  C6. Once a call has been abandoned, whatever happens next, the \<^verbatim>\<open>success\<close> and the
  \<^verbatim>\<open>error\<close> callback of its request return at once: the promise is not settled,
  \<^verbatim>\<open>deregister\<close> does not run again, and the state is what it was.
\<close>

theorem abandoned_callbacks_noop:
  assumes "abandoned (calls w c)" and "c < nextId w"
  shows "ajax_success c response (run evs w) = (Return (), run evs w) \<and>
         ajax_error c textStatus responseText (run evs w) = (Return (), run evs w)"
proof -
  have "abandoned (calls (run evs w) c)"
    using abandoned_kept_run [of w c evs] assms by simp
  then show ?thesis
    by (simp add: ajax_success_def ajax_error_def)
qed

theorem abandoned_callbacks_noop_witness:
  "abandoned (calls (run [Admit save_a, Admit save_b, Abandon ''POST'' ''/a''] fresh_service) 0) \<and>
   0 < nextId (run [Admit save_a, Admit save_b, Abandon ''POST'' ''/a''] fresh_service) \<and>
   ajax_success 0 ''late''
     (run [Success 1 ''ok'', Admit urgent]
        (run [Admit save_a, Admit save_b, Abandon ''POST'' ''/a''] fresh_service)) =
     (Return (),
      run [Success 1 ''ok'', Admit urgent]
        (run [Admit save_a, Admit save_b, Abandon ''POST'' ''/a''] fresh_service)) \<and>
   promise (calls (run [Success 1 ''ok'', Admit urgent]
        (run [Admit save_a, Admit save_b, Abandon ''POST'' ''/a''] fresh_service)) 0) = Unsettled"
proof -
  let ?w = "run [Admit save_a, Admit save_b, Abandon ''POST'' ''/a''] fresh_service"
  have a: "abandoned (calls ?w 0)"
    by (simp add: examples effects worlds sweep del: abandon_loop.simps(2))
  have n: "0 < nextId ?w"
    by (simp add: examples effects worlds sweep del: abandon_loop.simps(2))
  have p: "promise (calls (run [Success 1 ''ok'', Admit urgent] ?w) 0) = Unsettled"
    by (simp add: examples effects worlds sweep del: abandon_loop.simps(2))
  show ?thesis
    using abandoned_callbacks_noop [OF a n, of "''late''" "[Success 1 ''ok'', Admit urgent]"] a n p
    by simp
qed

section \<open>The unload-check registry\<close>

lemma keys_ok_unloadCheck: "keys_ok w \<Longrightarrow> keys_ok (snd (unloadCheck ca w))"
  using resolve_name_nonempty [of "given_name ca" w]
  by (cases ca)
    (auto simp add: keys_ok_def effects keys_update keys_delete distinct_update distinct_delete)

lemma keys_ok_exec: "keys_ok w \<Longrightarrow> keys_ok (exec ev w)"
proof (rule exec_preserves [where P = keys_ok])
  fix a and w :: "'a world"
  assume "keys_ok w"
  then show "keys_ok (snd (admit a w))"
    using uuid_nonempty [of w]
    by (auto simp add: keys_ok_def effects keys_update distinct_update)
next
  fix c and w :: "'a world"
  assume "keys_ok w"
  then show "keys_ok (snd (deregister c w))"
    by (auto simp add: keys_ok_def effects keys_delete distinct_delete)
qed (simp_all add: keys_ok_def effects keys_ok_unloadCheck [unfolded keys_ok_def])

lemma keys_ok_run: "keys_ok (run evs (Service opts rnd))"
  by (rule run_preserves [where P = keys_ok])
    (simp_all add: keys_ok_exec, simp add: keys_ok_def Service_def)

text \<open>
  C9. For a name that is already a key of the registry, \<^verbatim>\<open>unloadCheck(name, producer)\<close>
  returns that name, stores the new producer under it in place of the old one, and
  changes nothing else: no other entry, no key, and no other part of the state.
\<close>

theorem unloadCheck_replaces:
  assumes "w = run evs (Service opts rnd)"
    and "map_of (unloadChecks w) name = Some old"
  shows "unloadCheck (TwoArgs (Some name) producer) w =
           (Some name, w\<lparr>unloadChecks := AList.update name producer (unloadChecks w)\<rparr>) \<and>
         map_of (AList.update name producer (unloadChecks w)) =
           (map_of (unloadChecks w))(name \<mapsto> producer) \<and>
         map fst (AList.update name producer (unloadChecks w)) = map fst (unloadChecks w)"
proof -
  have "keys_ok w" using assms(1) keys_ok_run by simp
  moreover have "name \<in> fst ` set (unloadChecks w)"
    using map_of_SomeD [OF assms(2)] by force
  ultimately have "name \<noteq> []" unfolding keys_ok_def by blast
  then have "unloadCheck (TwoArgs (Some name) producer) w =
      (Some name, w\<lparr>unloadChecks := AList.update name producer (unloadChecks w)\<rparr>)"
    by (simp add: unloadCheck_def resolve_name_given)
  moreover have "map fst (AList.update name producer (unloadChecks w)) = map fst (unloadChecks w)"
    using \<open>name \<in> fst ` set (unloadChecks w)\<close> by (simp add: update_keys)
  ultimately show ?thesis by (simp add: update_conv')
qed

theorem unloadCheck_replaces_witness:
  "map_of (unloadChecks (run [UnloadCheck (TwoArgs (Some ''draft'') quiet_check)] (Service () rnd0)))
     ''draft'' = Some quiet_check \<and>
   fst (unloadCheck (TwoArgs (Some ''draft'') draft_check)
     (run [UnloadCheck (TwoArgs (Some ''draft'') quiet_check)] (Service () rnd0))) = Some ''draft'' \<and>
   map_of (unloadChecks (snd (unloadCheck (TwoArgs (Some ''draft'') draft_check)
     (run [UnloadCheck (TwoArgs (Some ''draft'') quiet_check)] (Service () rnd0))))) ''draft''
     = Some draft_check"
proof -
  let ?w = "run [UnloadCheck (TwoArgs (Some ''draft'') quiet_check)] (Service () rnd0) :: nat world"
  have h: "map_of (unloadChecks ?w) ''draft'' = Some quiet_check"
    by (simp add: run_def effects resolve_name_def Service_def)
  show ?thesis
    using unloadCheck_replaces [OF refl h, of draft_check] h by simp
qed

section \<open>The page-unload handler\<close>

lemma invocations_Cons:
  "invocations i ((j, s) # log) = (if j = i then s # invocations i log else invocations i log)"
  by (simp add: invocations_def)

lemma invocations_absent: "i \<notin> fst ` set log \<Longrightarrow> invocations i log = []"
  by (induction log) (auto simp add: invocations_def)

lemma appended_others:
  "i \<notin> set ks \<Longrightarrow>
     map (\<lambda>j. appended (invocations j ((i, s) # log))) ks =
     map (\<lambda>j. appended (invocations j log)) ks"
  by (induction ks) (auto simp add: invocations_Cons)

lemma instrument_Cons: "instrument ((i, f) # rest) = (i, traced i f) # instrument rest"
  by (simp add: instrument_def)

lemma traced_apply:
  "traced i f (env, log) = (fst (f env), (snd (f env), log @ [(i, fst (f env))]))"
  by (simp add: traced_def split_def Let_def)

lemma instrument_keys: "fst ` set (instrument checks) = fst ` set checks"
  by (force simp add: instrument_def)

lemma instrument_member: "(i, f) \<in> set checks \<Longrightarrow> (i, traced i f) \<in> set (instrument checks)"
  by (force simp add: instrument_def)

lemma hasOwnProperty_builtin:
  "map_of checks ''hasOwnProperty'' = None \<Longrightarrow> (i, f) \<in> set checks \<Longrightarrow>
     hasOwnProperty checks i env = (True, env)"
  by (force simp add: hasOwnProperty_def)

lemma unload_loop_step:
  assumes "map_of checks ''hasOwnProperty'' = None" and "(i, f) \<in> set checks"
  shows "unload_loop checks ((i, f) # rest) message env =
     (let (check, env1) = f env
      in if check \<noteq> [] then
           (let (again, env2) = f env1
            in unload_loop checks rest (message @ again @ [CHR 0x0A]) env2)
         else unload_loop checks rest message env1)"
  by (simp add: hasOwnProperty_builtin [OF assms])

declare unload_loop.simps(2) [simp del]

lemma unload_loop_traced:
  assumes "distinct (map fst reg)" and "set reg \<subseteq> set all"
    and "map_of all ''hasOwnProperty'' = None"
  shows "\<exists>log'. unload_loop (instrument all) (instrument reg) msg (env, log) =
            (fst (unload_loop all reg msg env), (snd (unload_loop all reg msg env), log @ log')) \<and>
          fst ` set log' \<subseteq> fst ` set reg \<and>
          (\<forall>i \<in> fst ` set reg. invocations i log' = [[]] \<or>
              (\<exists>r1 r2. r1 \<noteq> [] \<and> invocations i log' = [r1, r2])) \<and>
          fst (unload_loop all reg msg env) =
            msg @ concat (map (\<lambda>i. appended (invocations i log')) (map fst reg))"
  using assms
proof (induction reg arbitrary: msg env log)
  case Nil
  then show ?case by (simp add: instrument_def)
next
  case (Cons p rest)
  obtain i f where p: "p = (i, f)" by (cases p)
  have mem: "(i, f) \<in> set all" and rest: "set rest \<subseteq> set all"
    using Cons.prems(2) p by auto
  have none': "map_of (instrument all) ''hasOwnProperty'' = None"
    using Cons.prems(3) by (simp add: map_of_eq_None_iff instrument_keys)
  note step = unload_loop_step [OF Cons.prems(3) mem]
    unload_loop_step [OF none' instrument_member [OF mem]]
  obtain check env1 where f1: "f env = (check, env1)" by (cases "f env")
  from Cons.prems p have fresh: "i \<notin> fst ` set rest" and dist: "distinct (map fst rest)"
    by auto
  show ?case
  proof (cases "check = []")
    case True
    from Cons.IH [OF dist rest Cons.prems(3), of msg "env1" "log @ [(i, check)]"]
    obtain log'' where
      run: "unload_loop (instrument all) (instrument rest) msg (env1, log @ [(i, check)]) =
              (fst (unload_loop all rest msg env1),
               (snd (unload_loop all rest msg env1), (log @ [(i, check)]) @ log''))"
      and sub: "fst ` set log'' \<subseteq> fst ` set rest"
      and shape: "\<forall>j \<in> fst ` set rest. invocations j log'' = [[]] \<or>
              (\<exists>r1 r2. r1 \<noteq> [] \<and> invocations j log'' = [r1, r2])"
      and msg: "fst (unload_loop all rest msg env1) =
              msg @ concat (map (\<lambda>j. appended (invocations j log'')) (map fst rest))"
      by blast
    let ?log' = "(i, check) # log''"
    have none: "invocations i log'' = []"
      using fresh sub by (intro invocations_absent) blast
    have 1: "unload_loop (instrument all) (instrument (p # rest)) msg (env, log) =
        (fst (unload_loop all (p # rest) msg env), (snd (unload_loop all (p # rest) msg env), log @ ?log'))"
      using True f1 run by (simp add: p instrument_Cons traced_apply step)
    have 2: "fst ` set ?log' \<subseteq> fst ` set (p # rest)"
      using sub by (auto simp add: p)
    have 3: "\<forall>j \<in> fst ` set (p # rest). invocations j ?log' = [[]] \<or>
              (\<exists>r1 r2. r1 \<noteq> [] \<and> invocations j ?log' = [r1, r2])"
      using shape none True fresh by (auto simp add: p invocations_Cons)
    have "i \<notin> set (map fst rest)" using fresh by simp
    then have others: "map (\<lambda>j. appended (invocations j ?log')) (map fst rest) =
        map (\<lambda>j. appended (invocations j log'')) (map fst rest)"
      by (rule appended_others)
    have head: "appended (invocations i ?log') = []"
      using none True by (simp add: invocations_Cons)
    have "fst (unload_loop all (p # rest) msg env) = fst (unload_loop all rest msg env1)"
      using True f1 by (simp add: p step)
    also have "\<dots> = msg @ concat (map (\<lambda>j. appended (invocations j log'')) (map fst rest))"
      by (rule msg)
    also have "\<dots> = msg @ concat (map (\<lambda>j. appended (invocations j ?log')) (map fst (p # rest)))"
      unfolding p list.map fst_conv concat.simps head others by simp
    finally have 4: "fst (unload_loop all (p # rest) msg env) =
        msg @ concat (map (\<lambda>j. appended (invocations j ?log')) (map fst (p # rest)))" .
    from 1 2 3 4 show ?thesis by blast
  next
    case False
    obtain again env2 where f2: "f env1 = (again, env2)" by (cases "f env1")
    from Cons.IH [OF dist rest Cons.prems(3), of "msg @ again @ [CHR 0x0A]" "env2" "log @ [(i, check), (i, again)]"]
    obtain log'' where
      run: "unload_loop (instrument all) (instrument rest) (msg @ again @ [CHR 0x0A])
              (env2, log @ [(i, check), (i, again)]) =
              (fst (unload_loop all rest (msg @ again @ [CHR 0x0A]) env2),
               (snd (unload_loop all rest (msg @ again @ [CHR 0x0A]) env2),
                (log @ [(i, check), (i, again)]) @ log''))"
      and sub: "fst ` set log'' \<subseteq> fst ` set rest"
      and shape: "\<forall>j \<in> fst ` set rest. invocations j log'' = [[]] \<or>
              (\<exists>r1 r2. r1 \<noteq> [] \<and> invocations j log'' = [r1, r2])"
      and msg: "fst (unload_loop all rest (msg @ again @ [CHR 0x0A]) env2) =
              (msg @ again @ [CHR 0x0A]) @
              concat (map (\<lambda>j. appended (invocations j log'')) (map fst rest))"
      by blast
    let ?log' = "(i, check) # (i, again) # log''"
    have none: "invocations i log'' = []"
      using fresh sub by (intro invocations_absent) blast
    have 1: "unload_loop (instrument all) (instrument (p # rest)) msg (env, log) =
        (fst (unload_loop all (p # rest) msg env), (snd (unload_loop all (p # rest) msg env), log @ ?log'))"
      using False f1 f2 run by (simp add: p instrument_Cons traced_apply step)
    have 2: "fst ` set ?log' \<subseteq> fst ` set (p # rest)"
      using sub by (auto simp add: p)
    have 3: "\<forall>j \<in> fst ` set (p # rest). invocations j ?log' = [[]] \<or>
              (\<exists>r1 r2. r1 \<noteq> [] \<and> invocations j ?log' = [r1, r2])"
      using shape none False fresh by (auto simp add: p invocations_Cons)
    have notin: "i \<notin> set (map fst rest)" using fresh by simp
    have others: "map (\<lambda>j. appended (invocations j ?log')) (map fst rest) =
        map (\<lambda>j. appended (invocations j log'')) (map fst rest)"
      by (simp only: appended_others [OF notin])
    have head: "appended (invocations i ?log') = again @ [CHR 0x0A]"
      using none by (simp add: invocations_Cons)
    have "fst (unload_loop all (p # rest) msg env) =
        fst (unload_loop all rest (msg @ again @ [CHR 0x0A]) env2)"
      using False f1 f2 by (simp add: p step)
    also have "\<dots> = (msg @ again @ [CHR 0x0A]) @
        concat (map (\<lambda>j. appended (invocations j log'')) (map fst rest))"
      by (rule msg)
    also have "\<dots> = msg @ concat (map (\<lambda>j. appended (invocations j ?log')) (map fst (p # rest)))"
      unfolding p list.map fst_conv concat.simps head others by simp
    finally have 4: "fst (unload_loop all (p # rest) msg env) =
        msg @ concat (map (\<lambda>j. appended (invocations j ?log')) (map fst (p # rest)))" .
    from 1 2 3 4 show ?thesis by blast
  qed
qed

lemma nothing_appended:
  "\<forall>i \<in> set ks. invocations i log = [[]] \<Longrightarrow>
     concat (map (\<lambda>i. appended (invocations i log)) ks) = []"
  by (induction ks) simp_all

text \<open>
  For a registry with no check stored under the name \<^verbatim>\<open>hasOwnProperty\<close>: in one run of the
  unload handler only registered checks are called. A check whose first result is
  empty is called once; a check whose first result is not empty is called twice, and
  it is the second result, followed by a line feed, that goes into the message. The
  handler returns the message when it is not empty and returns nothing and sets
  nothing when it is empty. Observing the calls changes neither the result nor the
  final state.
\<close>

lemma onbeforeunload_calls_ordinary:
  assumes "distinct (map fst checks)"
    and "map_of checks ''hasOwnProperty'' = None"
    and "onbeforeunload has_event (instrument checks) (env, []) =
           ((returned, returnValue), (env', log))"
  shows "fst ` set log \<subseteq> fst ` set checks \<and>
         (\<forall>i \<in> fst ` set checks. invocations i log = [[]] \<or>
            (\<exists>first second. first \<noteq> [] \<and> invocations i log = [first, second])) \<and>
         returned =
           (if concat (map (\<lambda>i. appended (invocations i log)) (map fst checks)) = [] then None
            else Some (concat (map (\<lambda>i. appended (invocations i log)) (map fst checks)))) \<and>
         returnValue = (if has_event then returned else None) \<and>
         ((\<forall>i \<in> fst ` set checks. invocations i log = [[]]) \<longrightarrow>
            returned = None \<and> returnValue = None) \<and>
         onbeforeunload has_event checks env = ((returned, returnValue), env')"
proof -
  let ?message = "concat (map (\<lambda>i. appended (invocations i log)) (map fst checks))"
  from unload_loop_traced [OF assms(1) subset_refl assms(2), of "[]" env "[]"]
  obtain log' where
    run: "unload_loop (instrument checks) (instrument checks) [] (env, []) =
            (fst (unload_loop checks checks [] env), (snd (unload_loop checks checks [] env), log'))"
    and sub: "fst ` set log' \<subseteq> fst ` set checks"
    and shape: "\<forall>i \<in> fst ` set checks. invocations i log' = [[]] \<or>
            (\<exists>r1 r2. r1 \<noteq> [] \<and> invocations i log' = [r1, r2])"
    and msg: "fst (unload_loop checks checks [] env) =
            concat (map (\<lambda>i. appended (invocations i log')) (map fst checks))"
    by auto
  from assms(3) run have log: "log = log'" and env': "env' = snd (unload_loop checks checks [] env)"
    by (auto simp add: onbeforeunload_def split: if_splits)
  define m where "m = ?message"
  have message: "fst (unload_loop checks checks [] env) = m"
    using msg log by (simp add: m_def)
  from assms(3) run message have returned: "returned = (if m = [] then None else Some m)"
    and returnValue: "returnValue = (if has_event then returned else None)"
    by (auto simp add: onbeforeunload_def split: if_splits)
  have plain: "onbeforeunload has_event checks env = ((returned, returnValue), env')"
    using returned returnValue env' message
    by (simp add: onbeforeunload_def split_def)
  have quiet: "returned = None \<and> returnValue = None"
    if "\<forall>i \<in> fst ` set checks. invocations i log = [[]]"
  proof -
    have "m = []" unfolding m_def using that by (intro nothing_appended) simp
    then show ?thesis using returned returnValue by simp
  qed
  from sub shape returned [unfolded m_def] returnValue quiet plain log show ?thesis by blast
qed

text \<open>
  C10. A check is stored under the name \<^verbatim>\<open>hasOwnProperty\<close>. The handler's filter
  \<^verbatim>\<open>unloadChecks.hasOwnProperty(i)\<close> then calls that check. When it warns, it is called
  three times in one run: once as the filter, once to test its output and once more for
  the message. When it is quiet, the filter is falsy for every property: a check that
  has a warning is not called at all, and the handler returns nothing.
\<close>

theorem onbeforeunload_shadowed:
  "onbeforeunload True (instrument [(''hasOwnProperty'', draft_check)]) (0, []) =
     ((Some (''unsaved draft (asked again)'' @ [CHR 0x0A]),
       Some (''unsaved draft (asked again)'' @ [CHR 0x0A])),
      (3, [(''hasOwnProperty'', ''unsaved draft''),
           (''hasOwnProperty'', ''unsaved draft (asked again)''),
           (''hasOwnProperty'', ''unsaved draft (asked again)'')])) \<and>
   length (invocations ''hasOwnProperty''
     [(''hasOwnProperty'', ''unsaved draft''),
      (''hasOwnProperty'', ''unsaved draft (asked again)''),
      (''hasOwnProperty'', ''unsaved draft (asked again)'')]) = 3 \<and>
   onbeforeunload True
     (instrument [(''hasOwnProperty'', quiet_check), (''draft'', draft_check)]) (0, []) =
     ((None, None), (0, [(''hasOwnProperty'', []), (''hasOwnProperty'', [])])) \<and>
   invocations ''draft'' [(''hasOwnProperty'', []), (''hasOwnProperty'', [])] = [] \<and>
   fst (draft_check 0) = ''unsaved draft''"
  by (simp add: onbeforeunload_def instrument_def traced_def hasOwnProperty_def
      unload_loop.simps(2) draft_check_def quiet_check_def invocations_def)

section \<open>The pipes that exist\<close>

lemma pipe_keys_exec:
  "fst ` set (pipes (exec ev w)) = fst ` set (pipes w) \<union> {n. registers_under n ev}"
proof (cases "\<exists>a. ev = Admit a")
  case True
  then obtain a where "ev = Admit a" by blast
  then show ?thesis
    by (auto simp add: admit_pipes keys_update inherited_iff map_of_eq_None_iff)
next
  case False
  then have no: "{n. registers_under n ev} = {}" by (cases ev) auto
  have "fst ` set (pipes (exec ev w)) = fst ` set (pipes w)"
  proof (rule exec_preserves_other [where P = "\<lambda>v. fst ` set (pipes v) = fst ` set (pipes w)"])
    fix c and v :: "'a world"
    assume "fst ` set (pipes v) = fst ` set (pipes w)"
    then show "fst ` set (pipes (snd (deregister c v))) = fst ` set (pipes w)"
      by (auto simp add: deregister_pipes keys_update split: option.splits dest: map_of_key)
  qed (use False in \<open>simp_all add: effects\<close>)
  with no show ?thesis by simp
qed

lemma pipe_keys_run:
  "fst ` set (pipes (run evs w)) = fst ` set (pipes w) \<union> {n. list_ex (registers_under n) evs}"
  unfolding run_def
proof (induction evs arbitrary: w)
  case Nil
  then show ?case by simp
next
  case (Cons ev evs)
  show ?case by (auto simp add: Cons.IH pipe_keys_exec)
qed

lemma pipeLength_keys:
  "pipeLength name w =
     (if name \<in> fst ` set (pipes w) then Return (Some (length (pipe_of w name)))
      else case map_of object_prototype name of
             Some len \<Rightarrow> Return len
           | None \<Rightarrow> Throw (Thrown (''Unknown pipe \"'' @ name @ ''\"'')))"
  by (auto simp add: pipeLength_def pipes_get_def pipe_of_def map_of_eq_None_iff
      split: option.splits dest: map_of_key)

text \<open>
  For a name that is not an inherited one: on a Service that has gone through any
  events, \<^verbatim>\<open>pipeLength(name)\<close> throws \<^verbatim>\<open>Unknown pipe\<close> when no call was ever registered
  under the name and returns the present length of the pipe otherwise, and the pipe
  stays whatever events follow.
\<close>

lemma pipeLength_ordinary:
  assumes "w = run evs (Service opts rnd)"
    and "map_of object_prototype name = None"
  shows "pipeLength name w =
           (if list_ex (registers_under name) evs then Return (Some (length (pipe_of w name)))
            else Throw (Thrown (''Unknown pipe \"'' @ name @ ''\"''))) \<and>
         (list_ex (registers_under name) evs \<longrightarrow>
            pipeLength name (run later w) = Return (Some (length (pipe_of (run later w) name))))"
proof -
  have keys: "fst ` set (pipes (run es (Service opts rnd))) = {n. list_ex (registers_under n) es}"
    for es :: "'a event list"
    by (simp add: pipe_keys_run) (simp add: Service_def)
  have "run later w = run (evs @ later) (Service opts rnd)"
    using assms by (simp add: run_append)
  then show ?thesis
    using keys [of evs] keys [of "evs @ later"] assms by (simp add: pipeLength_keys)
qed

text \<open>
  C8. On a new Service no call has been registered under any name, yet
  \<^verbatim>\<open>pipeLength('constructor')\<close> returns 1 and \<^verbatim>\<open>pipeLength('toString')\<close> returns 0:
  \<^verbatim>\<open>pipes[pipeName]\<close> finds the inherited member, which is not undefined. A name that
  is not inherited, such as \<^verbatim>\<open>orders\<close>, throws \<^verbatim>\<open>Unknown pipe\<close>.
\<close>

theorem pipeLength_inherited_name:
  "pipes fresh_service = [] \<and>
   pipeLength ''constructor'' fresh_service = Return (Some 1) \<and>
   pipeLength ''toString'' fresh_service = Return (Some 0) \<and>
   pipeLength ''orders'' fresh_service = Throw (Thrown ''Unknown pipe \"orders\"'')"
  by (simp add: pipeLength_def pipes_get_def object_prototype_def fresh_service_def Service_def)

section \<open>One request per pipe\<close>

lemma dispatched_update [simp]:
  "dispatched (w\<lparr>calls := f\<rparr>) c = dispatched w c"
  "dispatched (w\<lparr>nextId := k\<rparr>) c = dispatched w c"
  "dispatched (w\<lparr>service_readOnly := b\<rparr>) c = dispatched w c"
  by (simp_all add: dispatched_def)

lemma dispatched_frame:
  "dispatched (snd (unloadCheck ca w)) c = dispatched w c"
  "dispatched (snd (allocate a w)) c = dispatched w c"
  by (simp_all add: dispatched_def effects)

lemma dispatched_deregister:
  "dispatched (snd (deregister c w)) d \<longleftrightarrow>
     dispatched w d \<or>
     (pipeName (calls w c) \<noteq> [] \<and>
      (\<exists>q. map_of (pipes w) (pipeName (calls w c)) = Some q \<and> tl q \<noteq> [] \<and> d = hd (tl q)))"
  by (auto simp add: dispatched_def deregister_ajax split: option.splits)

lemma dispatched_admit:
  "dispatched (snd (admit a w)) d \<longleftrightarrow>
     dispatched w d \<or>
     (d = nextId w \<and>
      (pipeName (new_call a) = [] \<or>
       (\<not> inherited w (pipeName (new_call a)) \<and> pipe_of w (pipeName (new_call a)) = [])))"
  by (auto simp add: dispatched_def admit_ajax)

lemma delete_pending_subset: "Some d \<in> set (delete_pending c xs) \<Longrightarrow> Some d \<in> set xs"
  by (auto simp add: delete_pending_def split: option.splits dest: set_update_subset_insert [THEN subsetD])

lemma put_pending_set: "Some d \<in> set (put_pending c xs) \<Longrightarrow> d = c \<or> Some d \<in> set xs"
  by (induction c xs rule: put_pending.induct) auto

lemma pipes_ok_promise:
  "pipes_ok w \<Longrightarrow> pipes_ok (w\<lparr>calls := (calls w)(c := (calls w c)\<lparr>promise := s\<rparr>)\<rparr>)"
  unfolding pipes_ok_def registered_def by simp

lemma pipes_ok_abandoned:
  "pipes_ok w \<Longrightarrow> pipes_ok (w\<lparr>calls := (calls w)(c := (calls w c)\<lparr>abandoned := True\<rparr>)\<rparr>)"
  unfolding pipes_ok_def registered_def by simp

lemma pipes_ok_unloadCheck: "pipes_ok w \<Longrightarrow> pipes_ok (snd (unloadCheck ca w))"
  unfolding pipes_ok_def registered_def by (simp add: effects dispatched_frame)

lemma pipes_ok_readOnly: "pipes_ok w \<Longrightarrow> pipes_ok (w\<lparr>service_readOnly := b\<rparr>)"
  unfolding pipes_ok_def registered_def by simp

lemma registered_allocate:
  "registered w c \<Longrightarrow>
     registered (snd (allocate a w)) c \<and>
     pipeName (calls (snd (allocate a w)) c) = pipeName (calls w c)"
  by (auto simp add: registered_def effects)

lemma pipes_ok_allocate:
  assumes "pipes_ok w"
  shows "pipes_ok (snd (allocate a w))"
proof -
  let ?w = "snd (allocate a w)"
  have keep: "registered ?w c \<and> pipeName (calls ?w c) = pipeName (calls w c)"
    if "registered w c" for c
    using that by (rule registered_allocate)
  have pipes: "pipes ?w = pipes w" and pend: "pending ?w = pending w"
    and disp: "\<And>c. dispatched ?w c = dispatched w c"
    by (simp_all add: effects dispatched_frame)
  show ?thesis
    unfolding pipes_ok_def pipes pend disp
    using assms [unfolded pipes_ok_def] keep by metis
qed

lemma pipe_insert_simps:
  "pipe_insert prio c [] = [c]"
  "pipe_insert True c (x # xs) = x # c # xs"
  "pipe_insert False c q = q @ [c]"
  by (simp_all add: pipe_insert_def)

lemma set_pipe_insert: "set (pipe_insert prio c q) = insert c (set q)"
  by (cases q; cases prio) (auto simp add: pipe_insert_simps)

lemma distinct_pipe_insert:
  "distinct q \<Longrightarrow> c \<notin> set q \<Longrightarrow> distinct (pipe_insert prio c q)"
  by (cases q; cases prio) (auto simp add: pipe_insert_simps)

lemma tl_pipe_insert: "q \<noteq> [] \<Longrightarrow> set (tl (pipe_insert prio c q)) = insert c (set (tl q))"
  by (cases q; cases prio) (auto simp add: pipe_insert_simps)

lemma hd_pipe_insert: "q \<noteq> [] \<Longrightarrow> hd (pipe_insert prio c q) = hd q"
  by (cases q; cases prio) (auto simp add: pipe_insert_simps)

lemma in_tl: "x \<in> set (tl xs) \<Longrightarrow> x \<in> set xs"
  by (cases xs) auto

lemma registered_deregister [simp]: "registered (snd (deregister c w)) d = registered w d"
  by (simp add: registered_def effects)

lemma pending_deregister:
  "Some d \<in> set (pending (snd (deregister c w))) \<Longrightarrow> Some d \<in> set (pending w)"
  by (auto simp add: deregister_pending split: if_splits dest: delete_pending_subset)

lemma pipes_ok_deregister:
  assumes ok: "pipes_ok w"
  shows "pipes_ok (snd (deregister c w))"
proof -
  let ?w = "snd (deregister c w)"
  let ?name = "pipeName (calls w c)"
  have calls: "calls ?w = calls w" by (simp add: effects)
  have reg: "\<And>d. dispatched w d \<Longrightarrow> registered w d"
    and pend: "\<And>d. Some d \<in> set (pending w) \<Longrightarrow> registered w d"
    using ok unfolding pipes_ok_def by blast+
  have old: "n \<noteq> [] \<and> distinct q \<and> (\<forall>d \<in> set q. registered w d \<and> pipeName (calls w d) = n) \<and>
      (\<forall>d \<in> set (tl q). \<not> dispatched w d)"
    if "map_of (pipes w) n = Some q" for n q
    using ok that unfolding pipes_ok_def by blast
  show ?thesis
  proof (cases "?name \<noteq> [] \<and> map_of (pipes w) ?name \<noteq> None")
    case False
    then have same: "pipes ?w = pipes w" "\<And>d. dispatched ?w d = dispatched w d"
      by (auto simp add: deregister_pipes dispatched_deregister)
    show ?thesis
      unfolding pipes_ok_def same calls registered_deregister
      using old reg pend pending_deregister [of _ c w] by blast
  next
    case True
    then obtain q where q: "map_of (pipes w) ?name = Some q" and name: "?name \<noteq> []"
      by auto
    have lookup: "map_of (pipes ?w) n = (if n = ?name then Some (tl q) else map_of (pipes w) n)" for n
      using q name by (simp add: deregister_pipes update_conv')
    have disp: "dispatched ?w d \<longleftrightarrow> dispatched w d \<or> (tl q \<noteq> [] \<and> d = hd (tl q))" for d
      using q name by (simp add: dispatched_deregister)
    have tlq: "set (tl q) \<subseteq> set q" by (cases q) auto
    have next_in: "hd (tl q) \<in> set q" if "tl q \<noteq> []"
      using hd_in_set [OF that] by (rule in_tl)
    have part1: "n \<noteq> [] \<and> distinct q' \<and>
        (\<forall>d \<in> set q'. registered w d \<and> pipeName (calls w d) = n) \<and>
        (\<forall>d \<in> set (tl q'). \<not> dispatched ?w d)"
      if look: "map_of (pipes ?w) n = Some q'" for n q'
    proof (cases "n = ?name")
      case True
      then have q': "q' = tl q" using look lookup by simp
      have "distinct (tl q)" using old [OF q] by (simp add: distinct_tl)
      moreover have "\<not> dispatched ?w d" if "d \<in> set (tl (tl q))" for d
      proof -
        have "d \<in> set (tl q)" using that by (rule in_tl)
        then have "\<not> dispatched w d" using old [OF q] by blast
        moreover have "d \<noteq> hd (tl q)"
          using that \<open>distinct (tl q)\<close> by (cases "tl q") auto
        ultimately show ?thesis by (simp add: disp)
      qed
      ultimately show ?thesis
        using old [OF q] tlq True q' by auto
    next
      case False
      then have o: "map_of (pipes w) n = Some q'" using look lookup by simp
      have "\<not> dispatched ?w d" if "d \<in> set (tl q')" for d
      proof -
        have "d \<in> set q'" using that by (rule in_tl)
        then have "pipeName (calls w d) = n" using old [OF o] by blast
        moreover have "pipeName (calls w (hd (tl q))) = ?name" if "tl q \<noteq> []"
          using next_in [OF that] old [OF q] by blast
        ultimately have "tl q \<noteq> [] \<Longrightarrow> d \<noteq> hd (tl q)" using False by auto
        moreover have "\<not> dispatched w d" using that old [OF o] by blast
        ultimately show ?thesis by (auto simp add: disp)
      qed
      then show ?thesis using old [OF o] by blast
    qed
    have part2: "registered w d" if "dispatched ?w d" for d
      using that reg next_in old [OF q] by (auto simp add: disp)
    show ?thesis
      unfolding pipes_ok_def calls registered_deregister
      using part1 part2 pend pending_deregister [of _ c w] by blast
  qed
qed

lemma pipes_ok_admit:
  assumes ok: "pipes_ok w"
  shows "pipes_ok (snd (admit a w))"
proof -
  let ?w = "snd (admit a w)"
  let ?c = "nextId w"
  let ?name = "pipeName (new_call a)"
  let ?pq = "pipe_of w ?name"
  have reg: "\<And>d. dispatched w d \<Longrightarrow> registered w d"
    and pend: "\<And>d. Some d \<in> set (pending w) \<Longrightarrow> registered w d"
    using ok unfolding pipes_ok_def by blast+
  have old: "n \<noteq> [] \<and> distinct q \<and> (\<forall>d \<in> set q. registered w d \<and> pipeName (calls w d) = n) \<and>
      (\<forall>d \<in> set (tl q). \<not> dispatched w d)"
    if "map_of (pipes w) n = Some q" for n q
    using ok that unfolding pipes_ok_def by blast
  have fresh: "\<not> registered w ?c" by (simp add: registered_def)
  have keep: "registered ?w d \<and> pipeName (calls ?w d) = pipeName (calls w d)"
    if "registered w d" for d
    using that by (auto simp add: registered_def effects)
  have new: "registered ?w ?c \<and> pipeName (calls ?w ?c) = ?name"
    by (simp add: registered_def effects)
  have disp: "dispatched ?w d \<longleftrightarrow>
      dispatched w d \<or> (d = ?c \<and> (?name = [] \<or> (\<not> inherited w ?name \<and> ?pq = [])))" for d
    by (rule dispatched_admit)
  have pq: "distinct ?pq \<and> (\<forall>d \<in> set ?pq. registered w d \<and> pipeName (calls w d) = ?name) \<and>
      (\<forall>d \<in> set (tl ?pq). \<not> dispatched w d)"
    using old [of ?name] by (cases "map_of (pipes w) ?name") (auto simp add: pipe_of_def)
  have part3: "registered ?w d" if "Some d \<in> set (pending ?w)" for d
    using that put_pending_set [of d ?c "pending w"] pend keep new
    by (auto simp add: effects)
  have part2: "registered ?w d" if "dispatched ?w d" for d
    using that reg keep new by (auto simp add: disp)
  have part1: "n \<noteq> [] \<and> distinct q' \<and>
      (\<forall>d \<in> set q'. registered ?w d \<and> pipeName (calls ?w d) = n) \<and>
      (\<forall>d \<in> set (tl q'). \<not> dispatched ?w d)"
    if look: "map_of (pipes ?w) n = Some q'" for n q'
  proof (cases "?name \<noteq> [] \<and> \<not> inherited w ?name \<and> n = ?name")
    case named: True
    then have q': "q' = pipe_insert (prioritize (new_call a)) ?c ?pq"
      using look by (simp add: admit_pipes update_conv')
    have notin: "?c \<notin> set ?pq" using pq fresh by blast
    have "distinct q'" using pq notin by (simp add: q' distinct_pipe_insert)
    moreover have "registered ?w d \<and> pipeName (calls ?w d) = n" if "d \<in> set q'" for d
      using that pq keep new named by (auto simp add: q' set_pipe_insert)
    moreover have "\<not> dispatched ?w d" if "d \<in> set (tl q')" for d
    proof (cases "?pq = []")
      case True
      then show ?thesis using that by (simp add: q' pipe_insert_simps)
    next
      case False
      then have "d = ?c \<or> d \<in> set (tl ?pq)"
        using that by (simp add: q' tl_pipe_insert)
      moreover have "\<not> dispatched w ?c" using reg fresh by blast
      moreover have "d \<noteq> ?c" if "d \<in> set (tl ?pq)"
        using in_tl [OF that] notin by blast
      ultimately show ?thesis using False pq named by (auto simp add: disp)
    qed
    ultimately show ?thesis using named by simp
  next
    case False
    then have o: "map_of (pipes w) n = Some q'"
      using look by (auto simp add: admit_pipes update_conv' split: if_splits)
    have "\<not> dispatched ?w d" if "d \<in> set (tl q')" for d
    proof -
      have "d \<in> set q'" using that by (rule in_tl)
      then have "d \<noteq> ?c" using old [OF o] fresh by blast
      moreover have "\<not> dispatched w d" using that old [OF o] by blast
      ultimately show ?thesis by (simp add: disp)
    qed
    moreover have "registered ?w d \<and> pipeName (calls ?w d) = n" if "d \<in> set q'" for d
      using that old [OF o] keep by simp
    ultimately show ?thesis using old [OF o] by simp
  qed
  show ?thesis
    unfolding pipes_ok_def using part1 part2 part3 by blast
qed

lemma pipes_ok_exec: "pipes_ok w \<Longrightarrow> pipes_ok (exec ev w)"
  by (rule exec_preserves [where P = pipes_ok])
    (simp_all add: pipes_ok_admit pipes_ok_allocate pipes_ok_deregister pipes_ok_promise
      pipes_ok_abandoned pipes_ok_unloadCheck pipes_ok_readOnly)

lemma pipes_ok_Service: "pipes_ok (Service opts rnd)"
  by (simp add: pipes_ok_def Service_def dispatched_def)

lemma pipes_ok_run: "pipes_ok (run evs (Service opts rnd))"
  by (rule run_preserves [where P = pipes_ok]) (simp_all add: pipes_ok_exec pipes_ok_Service)

text \<open>
  C3. Three calls are admitted on the pipe \<open>p\<close>: call 0 (POST /a), call 1 (POST /save) and
  call 2 with priority, so the pipe reads 0, 2, 1 and only call 0 has been handed to the
  transport. Then \<^verbatim>\<open>abandon('POST', '/save')\<close> abandons call 1, which waits behind the
  head: \<^verbatim>\<open>deregister\<close> shifts call 0 out of the pipe and issues the request of call 2.
  Now two calls of the pipe \<open>p\<close> are at the transport at once, both unsettled, not
  abandoned and still in \<^verbatim>\<open>pending\<close>, and call 0 is not the head of the pipe.
\<close>

theorem two_requests_of_one_pipe:
  "map rq_call (ajax (run [Admit save_a, Admit save_b, Admit urgent] fresh_service)) = [0] \<and>
   pipe_of (run [Admit save_a, Admit save_b, Admit urgent] fresh_service) ''p'' = [0, 2, 1] \<and>
   map rq_call (ajax (run [Admit save_a, Admit save_b, Admit urgent,
     Abandon ''POST'' ''/save''] fresh_service)) = [0, 2] \<and>
   pipe_of (run [Admit save_a, Admit save_b, Admit urgent,
     Abandon ''POST'' ''/save''] fresh_service) ''p'' = [2, 1] \<and>
   pending (run [Admit save_a, Admit save_b, Admit urgent,
     Abandon ''POST'' ''/save''] fresh_service) = [Some 0, None, Some 2] \<and>
   pipeName (calls (run [Admit save_a, Admit save_b, Admit urgent,
     Abandon ''POST'' ''/save''] fresh_service) 0) = ''p'' \<and>
   pipeName (calls (run [Admit save_a, Admit save_b, Admit urgent,
     Abandon ''POST'' ''/save''] fresh_service) 2) = ''p'' \<and>
   promise (calls (run [Admit save_a, Admit save_b, Admit urgent,
     Abandon ''POST'' ''/save''] fresh_service) 0) = Unsettled \<and>
   promise (calls (run [Admit save_a, Admit save_b, Admit urgent,
     Abandon ''POST'' ''/save''] fresh_service) 2) = Unsettled \<and>
   abandoned (calls (run [Admit save_a, Admit save_b, Admit urgent,
     Abandon ''POST'' ''/save''] fresh_service) 0) = False \<and>
   abandoned (calls (run [Admit save_a, Admit save_b, Admit urgent,
     Abandon ''POST'' ''/save''] fresh_service) 2) = False \<and>
   dispatched (run [Admit save_a, Admit save_b, Admit urgent,
     Abandon ''POST'' ''/save''] fresh_service) 0 \<and>
   dispatched (run [Admit save_a, Admit save_b, Admit urgent,
     Abandon ''POST'' ''/save''] fresh_service) 2"
proof -
  let ?v = "run [Admit save_a, Admit save_b, Admit urgent] fresh_service"
  let ?w = "run [Admit save_a, Admit save_b, Admit urgent, Abandon ''POST'' ''/save''] fresh_service"
  have before: "map rq_call (ajax ?v) = [0]" "pipe_of ?v ''p'' = [0, 2, 1]"
    by (simp_all add: examples effects inherited_iff object_prototype_def)
  have after: "map rq_call (ajax ?w) = [0, 2]" "pipe_of ?w ''p'' = [2, 1]"
    "pending ?w = [Some 0, None, Some 2]"
    by (simp_all add: examples effects worlds sweep inherited_iff object_prototype_def
        del: abandon_loop.simps(2))
  have calls: "pipeName (calls ?w 0) = ''p''" "pipeName (calls ?w 2) = ''p''"
    "promise (calls ?w 0) = Unsettled" "promise (calls ?w 2) = Unsettled"
    "abandoned (calls ?w 0) = False" "abandoned (calls ?w 2) = False"
    by (simp_all add: examples effects worlds sweep inherited_iff object_prototype_def
        del: abandon_loop.simps(2))
  have sent: "dispatched ?w 0" "dispatched ?w 2"
    unfolding dispatched_def set_map [symmetric] after(1) by simp_all
  from before after calls sent show ?thesis by simp
qed

section \<open>Priority\<close>

lemma pipe_of_admit:
  "pipe_of (snd (admit a w)) n =
     (if pipeName (new_call a) \<noteq> [] \<and> \<not> inherited w (pipeName (new_call a)) \<and>
         n = pipeName (new_call a)
      then pipe_insert (prioritize (new_call a)) (nextId w) (pipe_of w n)
      else pipe_of w n)"
  by (simp add: pipe_of_def admit_pipes update_conv')

lemma calls_admit_other:
  "c \<noteq> nextId w \<Longrightarrow> calls (snd (admit a w)) c = calls w c"
  by (simp add: effects)

lemma calls_admit_new:
  "pipeName (calls (snd (admit a w)) (nextId w)) = pipeName (new_call a)"
  "abandoned (calls (snd (admit a w)) (nextId w)) = abandoned (new_call a)"
  "promise (calls (snd (admit a w)) (nextId w)) = promise (new_call a)"
  by (simp_all add: effects)

lemma settle_head:
  assumes "promise (calls w c) = Unsettled" and "pipeName (calls w c) = p" and "p \<noteq> []"
    and "map_of (pipes w) p = Some (c # d # rest)"
  shows "pipe_of (snd (settle c s w)) p = d # rest"
    and "map rq_call (ajax (snd (settle c s w))) = map rq_call (ajax w) @ [d]"
    and "nextId (snd (settle c s w)) = nextId w"
    and "\<And>e. e \<noteq> c \<Longrightarrow> calls (snd (settle c s w)) e = calls w e"
  using assms by (simp_all add: settle_world effects pipe_of_def update_conv')

lemma pipe_of_Some: "pipe_of w p = q \<Longrightarrow> q \<noteq> [] \<Longrightarrow> map_of (pipes w) p = Some q"
  by (auto simp add: pipe_of_def split: option.splits)

text \<open>
  For a pipe name \<open>p\<close> that is not an inherited one and whose pipe is empty or not yet
  created: admit C1 on \<open>p\<close>, then C2 on \<open>p\<close> without priority, then C3 on \<open>p\<close> with
  priority. C1 is handed to the transport at once and stays the head; the pipe reads
  C1, C3, C2. When C1's request succeeds C3 is handed to the transport, and when C3's
  request fails C2 is: the requests go out in the order C1, C3, C2.
\<close>

lemma priority_order_ordinary:
  assumes "p \<noteq> []" and "pipe_of w p = []" and "map_of object_prototype p = None"
    and "pipeName (new_call a1) = p" and "pipeName (new_call a2) = p"
    and "pipeName (new_call a3) = p"
    and "\<not> prioritize (new_call a2)" and "prioritize (new_call a3)"
    and "c1 = nextId w" and "c2 = Suc c1" and "c3 = Suc c2"
  shows "pipe_of (run [Admit a1] w) p = [c1] \<and>
         pipe_of (run [Admit a1, Admit a2] w) p = [c1, c2] \<and>
         pipe_of (run [Admit a1, Admit a2, Admit a3] w) p = [c1, c3, c2] \<and>
         map rq_call (ajax (run [Admit a1, Admit a2, Admit a3] w)) = map rq_call (ajax w) @ [c1] \<and>
         map rq_call (ajax (run [Admit a1, Admit a2, Admit a3, Success c1 r] w)) =
           map rq_call (ajax w) @ [c1, c3] \<and>
         map rq_call (ajax (run [Admit a1, Admit a2, Admit a3, Success c1 r, Failure c3 t b] w)) =
           map rq_call (ajax w) @ [c1, c3, c2]"
proof -
  have ordinary: "\<not> inherited v p" for v :: "'a world"
    using assms(3) by (simp add: inherited_iff)
  let ?w1 = "snd (admit a1 w)"
  let ?w2 = "snd (admit a2 ?w1)"
  let ?w3 = "snd (admit a3 ?w2)"
  have n: "nextId ?w1 = c2" "nextId ?w2 = c3" "nextId ?w3 = Suc c3"
    using assms by (simp_all add: effects)
  have p1: "pipe_of ?w1 p = [c1]"
    using assms by (simp add: pipe_of_admit pipe_insert_simps ordinary)
  have p2: "pipe_of ?w2 p = [c1, c2]"
    using assms p1 n by (simp add: pipe_of_admit pipe_insert_simps ordinary)
  have p3: "pipe_of ?w3 p = [c1, c3, c2]"
    using assms p2 n by (simp add: pipe_of_admit pipe_insert_simps ordinary)
  have a1: "map rq_call (ajax ?w1) = map rq_call (ajax w) @ [c1]"
    using assms by (simp add: admit_ajax ordinary)
  have a2: "map rq_call (ajax ?w2) = map rq_call (ajax w) @ [c1]"
    using assms p1 a1 by (simp add: admit_ajax ordinary)
  have a3: "map rq_call (ajax ?w3) = map rq_call (ajax w) @ [c1]"
    using assms p2 a2 by (simp add: admit_ajax ordinary)
  have c1: "calls ?w3 c1 = calls ?w1 c1"
    using assms n by (simp add: calls_admit_other)
  have c3: "calls ?w3 c3 = calls ?w3 (nextId ?w2)" using n by simp
  have first: "promise (calls ?w3 c1) = Unsettled" "pipeName (calls ?w3 c1) = p"
    "\<not> abandoned (calls ?w3 c1)"
    unfolding c1 using assms by (simp_all add: calls_admit_new new_call_def)
  have third: "promise (calls ?w3 c3) = Unsettled" "pipeName (calls ?w3 c3) = p"
    "\<not> abandoned (calls ?w3 c3)"
    unfolding c3 using assms by (simp_all add: calls_admit_new new_call_def)
  let ?w4 = "snd (settle c1 (Fulfilled r) ?w3)"
  have m3: "map_of (pipes ?w3) p = Some (c1 # c3 # [c2])"
    using p3 by (intro pipe_of_Some) simp_all
  note s4 = settle_head [where s = "Fulfilled r", OF first(1) first(2) assms(1) m3]
  have e4: "snd (ajax_success c1 r ?w3) = ?w4"
    using first by (simp add: ajax_success_world)
  have "c3 \<noteq> c1" using assms by simp
  then have third4: "promise (calls ?w4 c3) = Unsettled" "pipeName (calls ?w4 c3) = p"
    "\<not> abandoned (calls ?w4 c3)"
    using third s4(4) by simp_all
  have m4: "map_of (pipes ?w4) p = Some (c3 # c2 # [])"
    using s4(1) by (intro pipe_of_Some) simp_all
  note s5 = settle_head [where s = "Smashed (t @ '': '' @ b)", OF third4(1) third4(2) assms(1) m4]
  have e5: "snd (ajax_error c3 t b ?w4) = snd (settle c3 (Smashed (t @ '': '' @ b)) ?w4)"
    using third4 by (simp add: ajax_error_world)
  show ?thesis
    using p1 p2 p3 a3 s4(2) s5(2) e4 e5 by (simp add: run_def)
qed

text \<open>
  C4. Three calls are admitted on the pipe name \<^verbatim>\<open>constructor\<close>, the third with
  priority. \<^verbatim>\<open>pipes['constructor']\<close> is the inherited function \<^verbatim>\<open>Object\<close>, whose \<^verbatim>\<open>length\<close> is
  one: \<^verbatim>\<open>register\<close> throws at \<^verbatim>\<open>pipe.push\<close> for the first two calls and at \<^verbatim>\<open>pipe.unshift\<close>
  for the third. No pipe is created and no request is ever issued; the three calls
  stay in \<^verbatim>\<open>pending\<close>.
\<close>

theorem priority_inherited_name:
  "fst (admit on_constructor fresh_service) = Throw (TypeError ''pipe.push is not a function'') \<and>
   fst (admit on_constructor (run [Admit on_constructor] fresh_service)) =
     Throw (TypeError ''pipe.push is not a function'') \<and>
   fst (admit urgent_on_constructor (run [Admit on_constructor, Admit on_constructor]
     fresh_service)) = Throw (TypeError ''pipe.unshift is not a function'') \<and>
   ajax (run [Admit on_constructor, Admit on_constructor, Admit urgent_on_constructor]
     fresh_service) = [] \<and>
   pipes (run [Admit on_constructor, Admit on_constructor, Admit urgent_on_constructor]
     fresh_service) = [] \<and>
   pending (run [Admit on_constructor, Admit on_constructor, Admit urgent_on_constructor]
     fresh_service) = [Some 0, Some 1, Some 2]"
proof -
  have i: "inherited v ''constructor''" if "pipes v = []" for v :: "unit world"
    using that by (simp add: inherited_iff object_prototype_def)
  have n: "pipeName (new_call on_constructor) = ''constructor''"
    "pipeName (new_call urgent_on_constructor) = ''constructor''"
    "prioritize (new_call on_constructor) = False"
    "prioritize (new_call urgent_on_constructor) = True"
    by (simp_all add: on_constructor_def urgent_on_constructor_def new_call_def or_else_def)
  have p0: "pipes fresh_service = []" by (simp add: examples)
  have p1: "pipes (run [Admit on_constructor] fresh_service) = []"
    by (simp add: run_def admit_pipes n i p0)
  have p2: "pipes (run [Admit on_constructor, Admit on_constructor] fresh_service) = []"
    using p1 by (simp add: run_def admit_pipes n i)
  have p3: "pipes (run [Admit on_constructor, Admit on_constructor, Admit urgent_on_constructor]
      fresh_service) = []"
    using p2 by (simp add: run_def admit_pipes n i)
  have r1: "fst (admit on_constructor fresh_service) =
      Throw (TypeError ''pipe.push is not a function'')"
    by (simp add: admit_result register_result allocate_frame n i p0)
  have r2: "fst (admit on_constructor (run [Admit on_constructor] fresh_service)) =
      Throw (TypeError ''pipe.push is not a function'')"
    by (simp add: admit_result register_result allocate_frame n i p1)
  have r3: "fst (admit urgent_on_constructor (run [Admit on_constructor, Admit on_constructor]
      fresh_service)) = Throw (TypeError ''pipe.unshift is not a function'')"
    by (simp add: admit_result register_result allocate_frame n i p2 object_prototype_def)
  have a: "ajax (run [Admit on_constructor, Admit on_constructor, Admit urgent_on_constructor]
      fresh_service) = []"
    using p0 p1 p2 by (simp add: run_def admit_ajax n i) (simp add: examples)
  have q: "pending (run [Admit on_constructor, Admit on_constructor, Admit urgent_on_constructor]
      fresh_service) = [Some 0, Some 1, Some 2]"
    by (simp add: run_def admit_frame examples)
  from r1 r2 r3 a p3 q show ?thesis by simp
qed

section \<open>The read-only gate\<close>

lemma inArray_absent: "Some c \<notin> set xs \<Longrightarrow> inArray c xs = None"
  by (induction xs) auto

lemma delete_pending_absent: "Some c \<notin> set xs \<Longrightarrow> delete_pending c xs = xs"
  by (simp add: delete_pending_def inArray_absent)

lemma unregistered_kept:
  "c < nextId w \<and> unloadId (calls w c) = None \<Longrightarrow>
     c < nextId (exec ev w) \<and> unloadId (calls (exec ev w) c) = None"
  by (rule exec_preserves [where P = "\<lambda>w. c < nextId w \<and> unloadId (calls w c) = None"])
    (auto simp add: effects)

lemma unregistered_kept_run:
  "c < nextId w \<and> unloadId (calls w c) = None \<Longrightarrow>
     c < nextId (run evs w) \<and> unloadId (calls (run evs w) c) = None"
  by (rule run_preserves [where P = "\<lambda>w. c < nextId w \<and> unloadId (calls w c) = None"])
    (rule unregistered_kept)

lemma pipes_ok_run_from: "pipes_ok w \<Longrightarrow> pipes_ok (run evs w)"
  by (rule run_preserves [where P = pipes_ok]) (rule pipes_ok_exec)

lemma unregistered_nowhere:
  assumes "pipes_ok w" and "\<not> registered w c"
  shows "Some c \<notin> set (pending w)" and "\<not> dispatched w c"
    and "\<And>n q. map_of (pipes w) n = Some q \<Longrightarrow> c \<notin> set q"
  using assms unfolding pipes_ok_def by blast+

lemma Call_gated:
  assumes "service_readOnly w" and "\<not> arg_readOnly a"
  shows "snd (Call a w) =
           snd (deregister (nextId w)
             ((snd (allocate a w))\<lparr>calls := (calls (snd (allocate a w)))
               (nextId w := (new_call a)\<lparr>promise :=
                  Smashed ''All non read-only requests have been disabled!''\<rparr>)\<rparr>))"
    and "fst (Call a w) =
           (if pipeName (new_call a) \<noteq> [] \<and> map_of (pipes w) (pipeName (new_call a)) = None
            then (if inherited w (pipeName (new_call a))
                  then Throw (TypeError ''pipe.shift is not a function'')
                  else Throw (Thrown (''Unknown pipe \"'' @ pipeName (new_call a) @ ''\"'')))
            else Return (nextId w))"
proof -
  have u: "promise (new_call a) = Unsettled" "readOnly (new_call a) = arg_readOnly a"
    by (simp_all add: new_call_def)
  show "snd (Call a w) =
           snd (deregister (nextId w)
             ((snd (allocate a w))\<lparr>calls := (calls (snd (allocate a w)))
               (nextId w := (new_call a)\<lparr>promise :=
                  Smashed ''All non read-only requests have been disabled!''\<rparr>)\<rparr>))"
    using assms u by (simp add: Call_world settle_world effects)
  obtain r v where d: "deregister (nextId w)
             ((snd (allocate a w))\<lparr>calls := (calls (snd (allocate a w)))
               (nextId w := (new_call a)\<lparr>promise :=
                  Smashed ''All non read-only requests have been disabled!''\<rparr>)\<rparr>) = (r, v)"
    by (cases "deregister (nextId w)
             ((snd (allocate a w))\<lparr>calls := (calls (snd (allocate a w)))
               (nextId w := (new_call a)\<lparr>promise :=
                  Smashed ''All non read-only requests have been disabled!''\<rparr>)\<rparr>)")
  have r: "r = (if pipeName (new_call a) \<noteq> [] \<and> map_of (pipes w) (pipeName (new_call a)) = None
            then (if inherited w (pipeName (new_call a))
                  then Throw (TypeError ''pipe.shift is not a function'')
                  else Throw (Thrown (''Unknown pipe \"'' @ pipeName (new_call a) @ ''\"'')))
            else Return ())"
    using deregister_result [of "nextId w" "(snd (allocate a w))\<lparr>calls := (calls (snd (allocate a w)))
               (nextId w := (new_call a)\<lparr>promise :=
                  Smashed ''All non read-only requests have been disabled!''\<rparr>)\<rparr>"] d
    by (simp add: effects inherited_iff)
  show "fst (Call a w) =
           (if pipeName (new_call a) \<noteq> [] \<and> map_of (pipes w) (pipeName (new_call a)) = None
            then (if inherited w (pipeName (new_call a))
                  then Throw (TypeError ''pipe.shift is not a function'')
                  else Throw (Thrown (''Unknown pipe \"'' @ pipeName (new_call a) @ ''\"'')))
            else Return (nextId w))"
    using assms u d r
    by (simp add: Call_def smash_def settle_def split_def Let_def effects allocate_def)
qed

text \<open>
  C7, as the code has it. The gate is the property \<^verbatim>\<open>readOnly\<close> of the Service object,
  false in the object \<^verbatim>\<open>Service\<close> returns and set by the client. While it is true, a Call
  that is not read-only has its promise smashed with the message at once; \<^verbatim>\<open>Call\<close>
  returns that promise (unless the call names a pipe that does not exist, where the
  \<^verbatim>\<open>deregister\<close> run by the rejection throws \<^verbatim>\<open>Unknown pipe\<close>, or a TypeError when the
  name is an inherited one); \<^verbatim>\<open>pending\<close> is as it was; and whatever
  happens later the call is never in \<^verbatim>\<open>pending\<close>, never in a pipe, never registered and
  never handed to the transport.
\<close>

theorem gate_rejects:
  assumes "w = run evs (Service opts rnd)"
    and "service_readOnly w" and "\<not> arg_readOnly a"
  shows "promise (calls (snd (Call a w)) (nextId w)) =
           Smashed ''All non read-only requests have been disabled!'' \<and>
         fst (Call a w) =
           (if pipeName (new_call a) \<noteq> [] \<and> map_of (pipes w) (pipeName (new_call a)) = None
            then (if inherited w (pipeName (new_call a))
                  then Throw (TypeError ''pipe.shift is not a function'')
                  else Throw (Thrown (''Unknown pipe \"'' @ pipeName (new_call a) @ ''\"'')))
            else Return (nextId w)) \<and>
         pending (snd (Call a w)) = pending w \<and>
         Some (nextId w) \<notin> set (pending (run later (snd (Call a w)))) \<and>
         \<not> dispatched (run later (snd (Call a w))) (nextId w) \<and>
         unloadId (calls (run later (snd (Call a w))) (nextId w)) = None \<and>
         (\<forall>n q. map_of (pipes (run later (snd (Call a w)))) n = Some q \<longrightarrow> nextId w \<notin> set q)"
proof -
  let ?c = "nextId w"
  let ?v = "snd (Call a w)"
  let ?v' = "run later ?v"
  have ok: "pipes_ok w" using assms(1) pipes_ok_run by simp
  have new: "\<not> registered w ?c" by (simp add: registered_def)
  note gated = Call_gated [OF assms(2,3)]
  have call: "calls ?v ?c =
      (new_call a)\<lparr>promise := Smashed ''All non read-only requests have been disabled!''\<rparr>"
    and nxt: "nextId ?v = Suc ?c"
    unfolding gated(1) by (simp_all add: effects)
  have 1: "promise (calls ?v ?c) = Smashed ''All non read-only requests have been disabled!''"
    by (simp add: call)
  have "Some ?c \<notin> set (pending w)" using unregistered_nowhere(1) [OF ok new] .
  then have 3: "pending ?v = pending w"
    unfolding gated(1) by (simp add: deregister_pending effects delete_pending_absent)
  have "pipes_ok ?v" using pipes_ok_exec [OF ok, of "CallEv a"] by simp
  then have ok': "pipes_ok ?v'" by (rule pipes_ok_run_from)
  have "?c < nextId ?v \<and> unloadId (calls ?v ?c) = None"
    by (simp add: call nxt new_call_def)
  then have un: "?c < nextId ?v' \<and> unloadId (calls ?v' ?c) = None"
    by (rule unregistered_kept_run)
  then have "\<not> registered ?v' ?c" by (simp add: registered_def)
  note nowhere = unregistered_nowhere [OF ok' this]
  from 1 gated(2) 3 nowhere un show ?thesis by blast
qed

theorem gate_rejects_witness:
  "service_readOnly (run [Admit save_a, SetReadOnly True] fresh_service) \<and>
   \<not> arg_readOnly post_x \<and>
   fst (Call post_x (run [Admit save_a, SetReadOnly True] fresh_service)) = Return 1 \<and>
   promise (calls (snd (Call post_x (run [Admit save_a, SetReadOnly True] fresh_service))) 1) =
     Smashed ''All non read-only requests have been disabled!'' \<and>
   pending (snd (Call post_x (run [Admit save_a, SetReadOnly True] fresh_service))) = [Some 0] \<and>
   \<not> dispatched (run [Success 0 ''ok'']
     (snd (Call post_x (run [Admit save_a, SetReadOnly True] fresh_service)))) 1"
proof -
  let ?w = "run [Admit save_a, SetReadOnly True] (Service () rnd0) :: unit world"
  have h: "service_readOnly ?w" "\<not> arg_readOnly post_x"
    by (simp_all add: examples effects post_x_def)
  have n: "nextId ?w = 1" "pending ?w = [Some 0]" "pipeName (new_call post_x) = []"
    by (simp_all add: examples effects post_x_def)
  show ?thesis
    using gate_rejects [OF refl h, of "[Success 0 ''ok'']"] h n
    by (simp add: fresh_service_def)
qed

text \<open>
  As stated, C7 speaks of a Service constructed with \<^verbatim>\<open>readOnly: true\<close>. \<^verbatim>\<open>Service\<close> takes
  no argument: the Service it returns for \<^verbatim>\<open>{readOnly: true}\<close> has the gate open, and a
  Call that is not read-only is not rejected with the gate's message.
\<close>

theorem gate_constructed_counterexample:
  "\<not> arg_readOnly post_x \<and>
   service_readOnly (Service read_only_options rnd0 :: unit world) = False \<and>
   promise (calls (snd (Call post_x (Service read_only_options rnd0 :: unit world))) 0) = Unsettled \<and>
   fst (Call post_x (Service read_only_options rnd0 :: unit world)) \<noteq> Return 0"
  by (simp add: Call_def allocate_def new_call_def or_else_def post_x_def Service_def)

section \<open>Where the code departs from its description\<close>

text \<open>
  C5. Two calls wait in the pipe \<open>p\<close>: call 0 (POST /a) is the head and has been handed
  to the transport, call 1 (POST /save) waits behind it. \<^verbatim>\<open>abandon('POST', '/save')\<close>
  abandons call 1, leaves its promise unsettled and empties its slot of \<^verbatim>\<open>pending\<close>; but
  \<^verbatim>\<open>deregister\<close> shifts the pipe, which removes call 0, and then issues the request of
  the new head, which is call 1 itself. Call 1 is still in the pipe, and its request
  has now gone out.
\<close>

theorem abandon_waiting_member:
  "pending (run [Admit save_a, Admit save_b] fresh_service) = [Some 0, Some 1] \<and>
   method' (calls (run [Admit save_a, Admit save_b] fresh_service) 1) = ''POST'' \<and>
   url (calls (run [Admit save_a, Admit save_b] fresh_service) 1) = ''/save'' \<and>
   pipe_of (run [Admit save_a, Admit save_b] fresh_service) ''p'' = [0, 1] \<and>
   map rq_call (ajax (run [Admit save_a, Admit save_b] fresh_service)) = [0] \<and>
   fst (abandon ''POST'' ''/save'' (run [Admit save_a, Admit save_b] fresh_service)) = Return () \<and>
   abandoned (calls (snd (abandon ''POST'' ''/save''
     (run [Admit save_a, Admit save_b] fresh_service))) 1) \<and>
   promise (calls (snd (abandon ''POST'' ''/save''
     (run [Admit save_a, Admit save_b] fresh_service))) 1) = Unsettled \<and>
   pending (snd (abandon ''POST'' ''/save''
     (run [Admit save_a, Admit save_b] fresh_service))) = [Some 0, None] \<and>
   pipe_of (snd (abandon ''POST'' ''/save''
     (run [Admit save_a, Admit save_b] fresh_service))) ''p'' = [1] \<and>
   map rq_call (ajax (snd (abandon ''POST'' ''/save''
     (run [Admit save_a, Admit save_b] fresh_service)))) = [0, 1]"
proof -
  let ?w = "run [Admit save_a, Admit save_b] fresh_service"
  have before: "pending ?w = [Some 0, Some 1]" "method' (calls ?w 1) = ''POST''"
    "url (calls ?w 1) = ''/save''" "pipe_of ?w ''p'' = [0, 1]" "map rq_call (ajax ?w) = [0]"
    "method' (calls ?w 0) = ''POST''" "url (calls ?w 0) = ''/a''"
    by (simp_all add: examples effects inherited_iff object_prototype_def)
  have r: "fst (abandon ''POST'' ''/save'' ?w) = Return ()"
    by (simp add: examples effects worlds sweep inherited_iff object_prototype_def
        del: abandon_loop.simps(2))
  have after: "abandoned (calls (snd (abandon ''POST'' ''/save'' ?w)) 1)"
    "promise (calls (snd (abandon ''POST'' ''/save'' ?w)) 1) = Unsettled"
    "pending (snd (abandon ''POST'' ''/save'' ?w)) = [Some 0, None]"
    "pipe_of (snd (abandon ''POST'' ''/save'' ?w)) ''p'' = [1]"
    "map rq_call (ajax (snd (abandon ''POST'' ''/save'' ?w))) = [0, 1]"
    by (simp_all add: examples effects worlds sweep inherited_iff object_prototype_def
        del: abandon_loop.simps(2))
  from before r after show ?thesis by simp
qed

text \<open>
  C1. On a new Service, \<^verbatim>\<open>Call({url: '/a', method: 'POST', pipeName: 'p', sync: true})\<close>
  passes the gate and then throws a TypeError at \<^verbatim>\<open>pending.register(call)\<close>: nothing is
  registered and no request is issued. And when the same call goes through the
  admission sequence with the closure's \<^verbatim>\<open>register\<close>, the request carries its method,
  url and payload, but \<^verbatim>\<open>async: true\<close>, although the call was made with \<^verbatim>\<open>sync: true\<close>
  and stores \<^verbatim>\<open>async: false\<close>.
\<close>

theorem Call_never_registers:
  "service_readOnly fresh_service = False \<and>
   fst (Call save_a fresh_service) = Throw (TypeError ''pending.register is not a function'') \<and>
   ajax (snd (Call save_a fresh_service)) = [] \<and>
   pending (snd (Call save_a fresh_service)) = [] \<and>
   pipes (snd (Call save_a fresh_service)) = [] \<and>
   fst (register 0 (snd (allocate save_a fresh_service))) = Return proceed \<and>
   arg_sync save_a \<and> async (new_call save_a) = False \<and>
   ajax (snd (admit save_a fresh_service)) =
     [\<lparr>rq_type = ''POST'', rq_async = True, rq_url = ''/a'', rq_data = [], rq_call = 0\<rparr>]"
proof -
  have gate: "service_readOnly fresh_service = False"
    by (simp add: examples)
  have thrown: "fst (Call save_a fresh_service) =
      Throw (TypeError ''pending.register is not a function'')"
    by (simp add: Call_def allocate_def examples)
  have state: "ajax (snd (Call save_a fresh_service)) = []"
    "pending (snd (Call save_a fresh_service)) = []"
    "pipes (snd (Call save_a fresh_service)) = []"
    using gate by (simp_all add: Call_world effects) (simp_all add: examples)
  have intended: "fst (register 0 (snd (allocate save_a fresh_service))) = Return proceed"
    by (simp add: register_result effects examples inherited_iff object_prototype_def)
  have flag: "arg_sync save_a" "async (new_call save_a) = False"
    by (simp_all add: examples)
  have sent: "ajax (snd (admit save_a fresh_service)) =
     [\<lparr>rq_type = ''POST'', rq_async = True, rq_url = ''/a'', rq_data = [], rq_call = 0\<rparr>]"
    by (simp add: admit_ajax examples ajax_options_def call_sync_def truthy_def inherited_iff
        object_prototype_def)
  from gate thrown state intended flag sent show ?thesis by simp
qed

end
